theory Spec2Isabelle
  imports Main "HOL-Library.Char_ord" "HOL-Library.List_Lexorder" "HOL-Library.AList"
begin

section \<open>Go library functions used by the program\<close>

text \<open>
  Go strings are byte sequences compared bytewise, which is the lexicographic order of
  \<open>char list\<close>. Slice indices and lengths are natural numbers: no slice of the
  program approaches the range of a 64-bit \<open>int\<close>.

  \<open>sort.Search\<close> and \<open>sort.SearchStrings\<close>: a binary search for the least index in
  \<open>[0, n)\<close> at which the predicate holds, \<open>n\<close> when there is none. The midpoint
  \<open>int(uint(i+j) >> 1)\<close> is \<open>(i + j) div 2\<close> on indices.
\<close>

function Search_loop :: "(nat \<Rightarrow> bool) \<Rightarrow> nat \<Rightarrow> nat \<Rightarrow> nat" where
  "Search_loop f i j =
     (if i < j then
        (let h = (i + j) div 2 in
         if \<not> f h then Search_loop f (h + 1) j else Search_loop f i h)
      else i)"
  by pat_completeness auto
termination
  by (relation "measure (\<lambda>(f, i, j). j - i)") auto

declare Search_loop.simps [simp del]

definition Search :: "nat \<Rightarrow> (nat \<Rightarrow> bool) \<Rightarrow> nat" where
  "Search n f = Search_loop f 0 n"

definition SearchStrings :: "string list \<Rightarrow> string \<Rightarrow> nat" where
  "SearchStrings a x = Search (length a) (\<lambda>i. a ! i \<ge> x)"

text \<open>
  \<open>sort.Strings\<close> sorts in increasing order. On strings the sorted permutation of a slice
  is unique, so insertion sort computes the slice that Go's sort leaves behind.
\<close>

definition Strings :: "string list \<Rightarrow> string list" where
  "Strings a = sort a"

text \<open>
  The built-in \<open>copy(dst[off:], src)\<close> seen from the slice \<open>dst\<close>: it overwrites
  \<open>min (len dst - off) (len src)\<close> elements and behaves as if the source were read
  before the destination is written (the two may overlap).
\<close>

definition copy_at :: "'a list \<Rightarrow> nat \<Rightarrow> 'a list \<Rightarrow> 'a list" where
  "copy_at dst off src =
     (let n = min (length dst - off) (length src)
      in take off dst @ take n src @ drop (off + n) dst)"

text \<open>
  \<open>for k, v := range m\<close> over a Go map visits every key once, in an order the runtime
  picks. A map that the program iterates over is an association list (looked up with
  \<open>map_of\<close>, so the first pair of a key is the binding); the order of the list stands
  for the order the runtime picked.
\<close>

definition go_range :: "('k \<times> 'v) list \<Rightarrow> ('k \<times> 'v) list" where
  "go_range m = AList.clearjunk m"

text \<open>
  \<open>path.Split\<close> cuts after the final slash, \<open>path.Ext\<close> is the suffix of the last
  element from its final dot, \<open>filepath.Base\<close> the last element of a path,
  \<open>strings.TrimSuffix\<close> removes a suffix that is present. \<open>path.Join\<close> puts slashes
  between the non-empty elements; the normalisation by \<open>path.Clean\<close> that follows in Go
  is not modelled (the paths built here are file-system keys only).
\<close>

definition last_elem :: "string \<Rightarrow> string" where
  "last_elem p = rev (takeWhile (\<lambda>c. c \<noteq> CHR ''/'') (rev p))"

definition path_Split :: "string \<Rightarrow> string \<times> string" where
  "path_Split p = (take (length p - length (last_elem p)) p, last_elem p)"

definition path_Ext :: "string \<Rightarrow> string" where
  "path_Ext p =
     (let e = last_elem p
      in if CHR ''.'' \<in> set e then CHR ''.'' # rev (takeWhile (\<lambda>c. c \<noteq> CHR ''.'') (rev e))
         else [])"

definition TrimSuffix :: "string \<Rightarrow> string \<Rightarrow> string" where
  "TrimSuffix s suffix =
     (if length suffix \<le> length s \<and> drop (length s - length suffix) s = suffix
      then take (length s - length suffix) s else s)"

fun join_slash :: "string list \<Rightarrow> string" where
  "join_slash [] = []"
| "join_slash [e] = e"
| "join_slash (e # es) = e @ ''/'' @ join_slash es"

definition path_Join :: "string list \<Rightarrow> string" where
  "path_Join elems = join_slash (filter (\<lambda>e. e \<noteq> []) elems)"

function strip_slashes :: "string \<Rightarrow> string" where
  "strip_slashes p = (if p \<noteq> [] \<and> last p = CHR ''/'' then strip_slashes (butlast p) else p)"
  by pat_completeness auto
termination
  by (relation "measure length") auto

definition filepath_Base :: "string \<Rightarrow> string" where
  "filepath_Base p =
     (if p = [] then ''.''
      else let q = last_elem (strip_slashes p) in if q = [] then ''/'' else q)"

text \<open>\<open>%d\<close> of \<open>fmt.Sprintf\<close>: the decimal digits of an integer, with a sign when negative.\<close>

definition digit :: "nat \<Rightarrow> char" where
  "digit n = char_of (48 + n)"

function nat_digits :: "nat \<Rightarrow> string" where
  "nat_digits n = (if n < 10 then [digit n] else nat_digits (n div 10) @ [digit (n mod 10)])"
  by pat_completeness auto
termination
  by (relation "measure id") auto

declare nat_digits.simps [simp del]

definition fmt_d :: "int \<Rightarrow> string" where
  "fmt_d i = (if i < 0 then CHR ''-'' # nat_digits (nat (- i)) else nat_digits (nat i))"

section \<open>Configuration, ledger rows and errors\<close>

text \<open>The configuration keys (viper) that the modelled code reads.\<close>

record config =
  cdb_path :: string
  cdb_branch :: string
  cdb_author_name :: string
  cdb_author_email :: string
  newerpol_name :: string
  newerpol_database :: string

text \<open>A grant of the ledger (newerpol/newerpol.go) and its request statuses.\<close>

record AccessRecord =
  AccessId :: int
  WebsiteId :: int
  RequestStatus :: int
  FirstName :: string
  LookupName :: string
  Login :: string
  Email :: string
  CSP :: string

definition AccessGrantPending :: int where "AccessGrantPending = 1"
definition AccessGranted :: int where "AccessGranted = 2"
definition AccessRevokePending :: int where "AccessRevokePending = 3"
definition AccessRevoked :: int where "AccessRevoked = 4"

datatype query = grantPendingToGrantedQuery | revokePendingToRevokedQuery

text \<open>
  Every \<open>fmt.Errorf\<close> of the modelled code is one constructor; its arguments are the
  values the message is formatted from.
\<close>

datatype error =
    ErrCdbPathMissing
  | ErrNotYaml string
  | ErrReadFile string string
  | ErrUnmarshal string string
  | ErrMarshal string string
  | ErrWriteFile string string
  | ErrReadDir string
  | ErrOpenRepo string string
  | ErrOpenWorktree string
  | ErrStatus string
  | ErrWorktreeNotClean
  | ErrHead string
  | ErrCheckout string string
  | ErrPull string string
  | ErrStaging string string
  | ErrCommit string
  | ErrPush string string
  | ErrGrantFinished AccessRecord
  | ErrPrepare query string
  | ErrExec AccessRecord string
  | ErrConnect string
  | ErrGetGrants string
  | ErrEmailType string
  | ErrEmailTemplate string string
  | ErrDial string

section \<open>Records of the configuration database (cdb/site.go)\<close>

text \<open>
  A \<open>Site\<close> is one record of the configuration database. Of the Go struct the model keeps
  the fields that the modelled operations read or write: the identifier, the access list
  \<open>Admins\<close>, the unexported name (derived from the file name) and the unexported
  \<open>changed\<close> flag; the other YAML attributes are carried along by \<open>Marshal\<close> and
  \<open>Unmarshal\<close> and no operation here looks at them. The mutex \<open>mu\<close> has no
  counterpart: every operation of the model runs as one atomic step, which is what holding
  the lock gives the Go method.
\<close>

record Site =
  Id :: int
  Admins :: "string list"
  name :: string
  changed :: bool

definition Changed :: "Site \<Rightarrow> bool" where
  "Changed s = changed s"

definition MarkAsChanged :: "Site \<Rightarrow> Site" where
  "MarkAsChanged s = s\<lparr>changed := True\<rparr>"

definition FileName :: "config \<Rightarrow> Site \<Rightarrow> string" where
  "FileName cfg s = path_Join [cdb_path cfg, ''sites'', name s @ ''.yaml'']"

definition FileNameRepo :: "Site \<Rightarrow> string" where
  "FileNameRepo s = path_Join [''sites'', name s @ ''.yaml'']"

text \<open>
  \<open>AddAdmin\<close> and \<open>RemoveAdmin\<close>: the early return on the empty user name comes before
  the slice is sorted; after it the slice is sorted in place whether or not it changes.
\<close>

definition AddAdmin :: "Site \<Rightarrow> string \<Rightarrow> Site" where
  "AddAdmin s username =
     (if username = [] then s
      else
        let a = Strings (Admins s);
            pos = SearchStrings a username
        in if pos < length a \<and> a ! pos = username then s\<lparr>Admins := a\<rparr>
           else if pos = length a then s\<lparr>Admins := a @ [username], changed := True\<rparr>
           else
             let a1 = a @ [[]];
                 a2 = copy_at a1 (pos + 1) (drop pos a1);
                 a3 = a2[pos := username]
             in s\<lparr>Admins := a3, changed := True\<rparr>)"

definition RemoveAdmin :: "Site \<Rightarrow> string \<Rightarrow> Site" where
  "RemoveAdmin s username =
     (if username = [] then s
      else
        let a = Strings (Admins s);
            pos = SearchStrings a username
        in if pos < length a \<and> a ! pos = username then
             let a1 = (if pos < length a - 1 then copy_at a pos (drop (pos + 1) a) else a);
                 a2 = a1[length a1 - 1 := []];
                 a3 = take (length a2 - 1) a2
             in s\<lparr>Admins := a3, changed := True\<rparr>
           else s\<lparr>Admins := a\<rparr>)"

text \<open>A sequence of calls on one record, and the invariant of the access list.\<close>

datatype admin_op = Add string | Remove string

fun apply_admin_op :: "Site \<Rightarrow> admin_op \<Rightarrow> Site" where
  "apply_admin_op s (Add u) = AddAdmin s u"
| "apply_admin_op s (Remove u) = RemoveAdmin s u"

definition apply_admin_ops :: "Site \<Rightarrow> admin_op list \<Rightarrow> Site" where
  "apply_admin_ops s ops = foldl apply_admin_op s ops"

definition admins_ok :: "string list \<Rightarrow> bool" where
  "admins_ok a \<longleftrightarrow> sorted a \<and> distinct a \<and> [] \<notin> set a"

section \<open>The outside world: files, the git working tree, effects\<close>

text \<open>
  Whatever the program does to the outside world is recorded, in order, as a list of
  events; whatever the outside world answers is a field of an environment record, an
  error message where the Go call returns an error.
\<close>

record EmailOptions =
  CSP :: string
  Email :: string
  EmailName :: string
  FirstName :: string
  Folder :: string
  Subject :: string
  Type :: string

datatype event =
    EvReadDir string
  | EvReadFile string
  | EvSave string
  | EvWriteFile string
  | EvCheckout string
  | EvPull string
  | EvStage string
  | EvCommit string
  | EvPush
  | EvCommitSitesReturned "error option"
  | EvStartWorker
  | EvFinishGrant AccessRecord "error + bool"
  | EvEnqueue EmailOptions
  | EvShutdownWorker

text \<open>
  The file system under \<open>cdb.path\<close>: \<open>ioutil.ReadDir\<close> (the entry names),
  \<open>ioutil.ReadFile\<close>, \<open>yaml.Unmarshal\<close> into a fresh \<open>Site\<close>, \<open>yaml.Marshal\<close> and
  \<open>ioutil.WriteFile\<close>.
\<close>

record fs_env =
  ReadDir :: "string \<Rightarrow> string + string list"
  ReadFile :: "string \<Rightarrow> string + string"
  Unmarshal :: "string \<Rightarrow> Site \<Rightarrow> string + Site"
  Marshal :: "Site \<Rightarrow> string + string"
  WriteFile :: "string \<Rightarrow> string \<Rightarrow> string option"

text \<open>
  The go-git calls of \<open>GetWorktree\<close> and \<open>CommitSites\<close>, in the order the code makes
  them. \<open>wt.Status\<close> is asked twice (when the working tree is acquired, and after
  staging), \<open>repo.Head\<close> twice (before and after a checkout), \<open>git.PlainOpen\<close> twice
  (for the working tree, and for the push).
\<close>

datatype pull_result = PullOK | NoErrAlreadyUpToDate | PullErr string

record git_env =
  PlainOpen_err :: "string option"
  Worktree_err :: "string option"
  Status_first :: "string + bool"
  Head_first :: "string + string"
  Checkout_err :: "string option"
  Head_second :: "string + string"
  Pull_result :: pull_result
  Add_err :: "string \<Rightarrow> string option"
  Status_second :: "string + bool"
  Commit_err :: "string option"
  PlainOpen_push_err :: "string option"
  Push_err :: "string option"

section \<open>The record store (package cdb)\<close>

record CommitSitesOptions =
  Ids :: "(int \<times> bool) list option"
  Message :: string
  Cmd :: string
  DryRun :: bool
  ForceUpdateTree :: bool
  NoPush :: bool

text \<open>
  The package variable \<open>sitesCache\<close>. The maps and the slice hold pointers to \<open>Site\<close>
  objects: \<open>sites\<close> is the heap of the objects allocated by loading, and a pointer is an
  index into it. \<open>initOnce\<close> is the state of the \<open>sync.Once\<close>: whether \<open>Do\<close> has run
  its function.
\<close>

record sitesCacheStruct =
  byId :: "(int \<times> nat) list"
  byName :: "(string \<times> nat) list"
  initOnce :: bool
  initError :: "error option"
  slice :: "nat list"
  sites :: "Site list"

definition sitesCache_initial :: sitesCacheStruct where
  "sitesCache_initial =
     \<lparr>byId = [], byName = [], initOnce = False, initError = None, slice = [], sites = []\<rparr>"

text \<open>Dereferencing: an index outside the heap is the nil pointer.\<close>

definition deref :: "sitesCacheStruct \<Rightarrow> nat \<Rightarrow> Site option" where
  "deref c p = (if p < length (sites c) then Some (sites c ! p) else None)"

text \<open>
  \<open>LoadSite\<close>: \<open>yaml.Unmarshal\<close> fills the exported fields of the record it is handed
  and cannot reach the unexported \<open>name\<close> and \<open>changed\<close>, which keep the values
  \<open>LoadSite\<close> and \<open>NewSite\<close> gave them.
\<close>

definition NewSite :: Site where
  "NewSite = \<lparr>Id = 0, Admins = [], name = [], changed = False\<rparr>"

definition LoadSite :: "config \<Rightarrow> fs_env \<Rightarrow> string \<Rightarrow> (error + Site) \<times> event list" where
  "LoadSite cfg fs siteFileName =
     (let fn = snd (path_Split siteFileName)
      in if path_Ext fn \<noteq> ''.yaml'' then (Inl (ErrNotYaml siteFileName), [])
         else
           let s0 = NewSite\<lparr>name := TrimSuffix fn (path_Ext fn)\<rparr>;
               file = path_Join [cdb_path cfg, ''sites'', fn]
           in case ReadFile fs file of
                Inl m \<Rightarrow> (Inl (ErrReadFile siteFileName m), [EvReadFile file])
              | Inr yamlData \<Rightarrow>
                  (case Unmarshal fs yamlData s0 of
                     Inl m \<Rightarrow> (Inl (ErrUnmarshal siteFileName m), [EvReadFile file])
                   | Inr s \<Rightarrow>
                       (Inr (s\<lparr>name := name s0, changed := changed s0\<rparr>), [EvReadFile file])))"

text \<open>
  \<open>Save\<close> marshals the record and writes its file; the flag is cleared only when both
  succeed.
\<close>

definition Save :: "config \<Rightarrow> fs_env \<Rightarrow> Site \<Rightarrow> error option \<times> Site \<times> event list" where
  "Save cfg fs s =
     (case Marshal fs s of
        Inl m \<Rightarrow> (Some (ErrMarshal (name s) m), s, [EvSave (name s)])
      | Inr yamlData \<Rightarrow>
          (case WriteFile fs (FileName cfg s) yamlData of
             Some m \<Rightarrow>
               (Some (ErrWriteFile (name s) m), s, [EvSave (name s), EvWriteFile (FileName cfg s)])
           | None \<Rightarrow>
               (None, s\<lparr>changed := False\<rparr>, [EvSave (name s), EvWriteFile (FileName cfg s)])))"

text \<open>
  \<open>initSitesCache\<close> starts one goroutine per directory entry and then receives as many
  items as there are entries, returning at the first item that carries an error. The
  goroutines have all been started by then, so every YAML file is read; the items are
  received in the order of the directory listing, which stands for the order in which the
  goroutines happen to finish.
\<close>

record item =
  site :: "Site option"
  err :: "error option"

definition load_item :: "config \<Rightarrow> fs_env \<Rightarrow> string \<Rightarrow> item \<times> event list" where
  "load_item cfg fs siteFileName =
     (let fn = snd (path_Split siteFileName)
      in if path_Ext fn \<noteq> ''.yaml'' then (\<lparr>site = None, err = None\<rparr>, [])
         else case LoadSite cfg fs siteFileName of
                (Inl e, tr) \<Rightarrow> (\<lparr>site = None, err = Some e\<rparr>, tr)
              | (Inr s, tr) \<Rightarrow> (\<lparr>site = Some s, err = None\<rparr>, tr))"

fun receive_items :: "sitesCacheStruct \<Rightarrow> item list \<Rightarrow> error option \<times> sitesCacheStruct" where
  "receive_items c [] = (None, c)"
| "receive_items c (it # its) =
     (case err it of
        Some e \<Rightarrow> (Some e, c)
      | None \<Rightarrow>
          (case site it of
             None \<Rightarrow> receive_items c its
           | Some s \<Rightarrow>
               (let p = length (sites c)
                in receive_items
                     (c\<lparr>sites := sites c @ [s],
                        byId := AList.update (Id s) p (byId c),
                        byName := AList.update (name s) p (byName c),
                        slice := slice c @ [p]\<rparr>) its)))"

definition initSitesCache ::
  "config \<Rightarrow> fs_env \<Rightarrow> sitesCacheStruct \<Rightarrow> error option \<times> sitesCacheStruct \<times> event list" where
  "initSitesCache cfg fs c =
     (if cdb_path cfg = [] then (Some ErrCdbPathMissing, c, [])
      else
        let sitesDir = path_Join [cdb_path cfg, ''sites'']
        in case ReadDir fs sitesDir of
             Inl m \<Rightarrow> (Some (ErrReadDir m), c, [EvReadDir sitesDir])
           | Inr dirEnts \<Rightarrow>
               (let loaded = map (load_item cfg fs) dirEnts;
                    (e, c') = receive_items (c\<lparr>byId := [], byName := []\<rparr>) (map fst loaded)
                in (e, c', EvReadDir sitesDir # concat (map snd loaded))))"

text \<open>\<open>sitesCache.initOnce.Do\<close>: the function runs on the first call only.\<close>

definition ensureSitesCacheLoaded ::
  "config \<Rightarrow> fs_env \<Rightarrow> sitesCacheStruct \<Rightarrow> error option \<times> sitesCacheStruct \<times> event list" where
  "ensureSitesCacheLoaded cfg fs c =
     (if initOnce c then (initError c, c, [])
      else case initSitesCache cfg fs c of
             (e, c', tr) \<Rightarrow> (e, c'\<lparr>initOnce := True, initError := e\<rparr>, tr))"

definition GetAllSites ::
  "config \<Rightarrow> fs_env \<Rightarrow> sitesCacheStruct \<Rightarrow> (error + nat list) \<times> sitesCacheStruct \<times> event list" where
  "GetAllSites cfg fs c =
     (case ensureSitesCacheLoaded cfg fs c of
        (Some e, c', tr) \<Rightarrow> (Inl e, c', tr)
      | (None, c', tr) \<Rightarrow> (Inr (slice c'), c', tr))"

definition GetSiteById ::
  "config \<Rightarrow> fs_env \<Rightarrow> sitesCacheStruct \<Rightarrow> int \<Rightarrow>
     (error + nat option) \<times> sitesCacheStruct \<times> event list" where
  "GetSiteById cfg fs c i =
     (case ensureSitesCacheLoaded cfg fs c of
        (Some e, c', tr) \<Rightarrow> (Inl e, c', tr)
      | (None, c', tr) \<Rightarrow> (Inr (map_of (byId c') i), c', tr))"

definition GetSiteByName ::
  "config \<Rightarrow> fs_env \<Rightarrow> sitesCacheStruct \<Rightarrow> string \<Rightarrow>
     (error + nat option) \<times> sitesCacheStruct \<times> event list" where
  "GetSiteByName cfg fs c n =
     (case ensureSitesCacheLoaded cfg fs c of
        (Some e, c', tr) \<Rightarrow> (Inl e, c', tr)
      | (None, c', tr) \<Rightarrow> (Inr (map_of (byName c') n), c', tr))"

definition checkWorktreeClean :: "string + bool \<Rightarrow> error option" where
  "checkWorktreeClean status =
     (case status of
        Inl m \<Rightarrow> Some (ErrStatus m)
      | Inr isClean \<Rightarrow> if \<not> isClean then Some ErrWorktreeNotClean else None)"

definition pull_branch :: "config \<Rightarrow> git_env \<Rightarrow> string \<Rightarrow> error option \<times> event list" where
  "pull_branch cfg git currentBranch =
     (case Pull_result git of
        PullErr m \<Rightarrow> (Some (ErrPull currentBranch m), [EvPull (cdb_branch cfg)])
      | _ \<Rightarrow> (None, [EvPull (cdb_branch cfg)]))"

definition GetWorktree :: "config \<Rightarrow> git_env \<Rightarrow> error option \<times> event list" where
  "GetWorktree cfg git =
     (if cdb_path cfg = [] then (Some ErrCdbPathMissing, [])
      else case PlainOpen_err git of
        Some m \<Rightarrow> (Some (ErrOpenRepo (cdb_path cfg) m), [])
      | None \<Rightarrow>
      (case Worktree_err git of
        Some m \<Rightarrow> (Some (ErrOpenWorktree m), [])
      | None \<Rightarrow>
      (case checkWorktreeClean (Status_first git) of
        Some e \<Rightarrow> (Some e, [])
      | None \<Rightarrow>
      (case Head_first git of
        Inl m \<Rightarrow> (Some (ErrHead m), [])
      | Inr h \<Rightarrow>
          if filepath_Base h \<noteq> cdb_branch cfg then
            (case Checkout_err git of
               Some m \<Rightarrow> (Some (ErrCheckout (cdb_branch cfg) m), [EvCheckout (cdb_branch cfg)])
             | None \<Rightarrow>
                 (case Head_second git of
                    Inl m \<Rightarrow> (Some (ErrHead m), [EvCheckout (cdb_branch cfg)])
                  | Inr h' \<Rightarrow>
                      (case pull_branch cfg git (filepath_Base h') of
                         (e, tr) \<Rightarrow> (e, EvCheckout (cdb_branch cfg) # tr))))
          else pull_branch cfg git (filepath_Base h)))))"

text \<open>
  \<open>CommitSites\<close>, step by step. The sites to process are the keys of \<open>opts.Ids\<close>, or
  every key of \<open>byId\<close> when \<open>opts.Ids\<close> is nil. Of those, the ones that are in the set,
  exist and are marked as changed are counted in \<open>sitesChanged\<close> and handed to one
  goroutine each.
\<close>

definition site_ids :: "sitesCacheStruct \<Rightarrow> CommitSitesOptions \<Rightarrow> (int \<times> bool) list" where
  "site_ids c opts =
     (case Ids opts of
        None \<Rightarrow> map (\<lambda>(i, p). (i, True)) (go_range (byId c))
      | Some m \<Rightarrow> m)"

definition sites_to_save :: "sitesCacheStruct \<Rightarrow> (int \<times> bool) list \<Rightarrow> nat list" where
  "sites_to_save c siteIds =
     List.map_filter
       (\<lambda>(i, inSet).
          if \<not> inSet then None
          else case map_of (byId c) i of
                 None \<Rightarrow> None
               | Some p \<Rightarrow>
                   (case deref c p of
                      None \<Rightarrow> None
                    | Some s \<Rightarrow> if \<not> Changed s then None else Some p))
       (go_range siteIds)"

text \<open>
  The goroutine of one site: it saves unless this is a dry run without
  \<open>ForceUpdateTree\<close>, sends the repository path of a saved file to \<open>filesToStage\<close> and
  its error (or nil) to \<open>errors\<close>. The goroutines run here one after the other in the
  order they were started; the channel \<open>errors\<close> is read after the last of them, and the
  first error in that order is the one returned.
\<close>

fun save_sites ::
  "config \<Rightarrow> fs_env \<Rightarrow> CommitSitesOptions \<Rightarrow> sitesCacheStruct \<Rightarrow> nat list \<Rightarrow>
     sitesCacheStruct \<times> error option list \<times> string list \<times> event list" where
  "save_sites cfg fs opts c [] = (c, [], [], [])"
| "save_sites cfg fs opts c (p # ps) =
     (if \<not> DryRun opts \<or> ForceUpdateTree opts then
        (case Save cfg fs (sites c ! p) of
           (e, s', tr) \<Rightarrow>
             (case save_sites cfg fs opts (c\<lparr>sites := (sites c)[p := s']\<rparr>) ps of
                (c', errors, filesToStage, tr') \<Rightarrow>
                  (c', e # errors,
                   (if e = None then FileNameRepo s' # filesToStage else filesToStage),
                   tr @ tr')))
      else
        (case save_sites cfg fs opts c ps of
           (c', errors, filesToStage, tr') \<Rightarrow> (c', None # errors, filesToStage, tr')))"

fun first_error :: "error option list \<Rightarrow> error option" where
  "first_error [] = None"
| "first_error (None # es) = first_error es"
| "first_error (Some e # es) = Some e"

text \<open>Staging stops at the first file that \<open>wt.Add\<close> refuses.\<close>

fun stage_files :: "git_env \<Rightarrow> string list \<Rightarrow> error option \<times> event list" where
  "stage_files git [] = (None, [])"
| "stage_files git (fn # fns) =
     (case Add_err git fn of
        Some m \<Rightarrow> (Some (ErrStaging fn m), [EvStage fn])
      | None \<Rightarrow> (case stage_files git fns of (e, tr) \<Rightarrow> (e, EvStage fn # tr)))"

definition commit_message :: "config \<Rightarrow> CommitSitesOptions \<Rightarrow> nat \<Rightarrow> string" where
  "commit_message cfg opts sitesChanged =
     (let message = (if Message opts = [] then ''Unspecified changes'' else Message opts);
          cmd = (if Cmd opts \<noteq> [] then ''pugo'' @ '' '' @ Cmd opts else ''pugo'');
          src = (if newerpol_name cfg = [] then newerpol_database cfg else newerpol_name cfg)
      in ''sites: '' @ message @ ''. Sites changed: '' @ fmt_d (int sitesChanged)
           @ '' (cmd='' @ cmd @ '', src='' @ src @ '')'')"

definition push_step :: "config \<Rightarrow> git_env \<Rightarrow> CommitSitesOptions \<Rightarrow> error option \<times> event list" where
  "push_step cfg git opts =
     (if \<not> DryRun opts \<and> \<not> NoPush opts then
        (case PlainOpen_push_err git of
           Some m \<Rightarrow> (Some (ErrOpenRepo (cdb_path cfg) m), [])
         | None \<Rightarrow>
             (case Push_err git of
                Some m \<Rightarrow> (Some (ErrPush (cdb_branch cfg) m), [EvPush])
              | None \<Rightarrow> (None, [EvPush])))
      else (None, []))"

definition commit_step ::
  "config \<Rightarrow> git_env \<Rightarrow> CommitSitesOptions \<Rightarrow> nat \<Rightarrow> error option \<times> event list" where
  "commit_step cfg git opts sitesChanged =
     (let commitMessage = commit_message cfg opts sitesChanged
      in if \<not> DryRun opts then
           (case Commit_err git of
              Some m \<Rightarrow> (Some (ErrCommit m), [EvCommit commitMessage])
            | None \<Rightarrow>
                (case push_step cfg git opts of (e, tr) \<Rightarrow> (e, EvCommit commitMessage # tr)))
         else push_step cfg git opts)"

text \<open>
  The first half of \<open>CommitSites\<close>, up to and including the staging of the saved files.
  It returns the error that ended it (if any), the store, the counter \<open>sitesChanged\<close>
  and the effects so far.
\<close>

definition save_and_stage ::
  "config \<Rightarrow> fs_env \<Rightarrow> git_env \<Rightarrow> sitesCacheStruct \<Rightarrow> CommitSitesOptions \<Rightarrow>
     error option \<times> sitesCacheStruct \<times> nat \<times> event list" where
  "save_and_stage cfg fs git c opts =
     (case ensureSitesCacheLoaded cfg fs c of
        (Some e, c1, tr0) \<Rightarrow> (Some e, c1, 0, tr0)
      | (None, c1, tr0) \<Rightarrow>
      (case GetWorktree cfg git of
        (Some e, tr1) \<Rightarrow> (Some e, c1, 0, tr0 @ tr1)
      | (None, tr1) \<Rightarrow>
      (let targets = sites_to_save c1 (site_ids c1 opts);
           sitesChanged = length targets
       in case save_sites cfg fs opts c1 targets of
            (c2, errors, filesToStage, tr2) \<Rightarrow>
      (case first_error errors of
        Some e \<Rightarrow> (Some e, c2, sitesChanged, tr0 @ tr1 @ tr2)
      | None \<Rightarrow>
      (case (if \<not> DryRun opts then stage_files git filesToStage else (None, [])) of
        (e, tr3) \<Rightarrow> (e, c2, sitesChanged, tr0 @ tr1 @ tr2 @ tr3))))))"

text \<open>
  The second half: when the working tree is clean after staging there is nothing to
  commit and the function returns nil; otherwise (also when the status cannot be read)
  it goes on to the commit and the push.
\<close>

definition CommitSites ::
  "config \<Rightarrow> fs_env \<Rightarrow> git_env \<Rightarrow> sitesCacheStruct \<Rightarrow> CommitSitesOptions \<Rightarrow>
     error option \<times> sitesCacheStruct \<times> event list" where
  "CommitSites cfg fs git c opts =
     (case save_and_stage cfg fs git c opts of
        (Some e, c2, sitesChanged, tr) \<Rightarrow> (Some e, c2, tr)
      | (None, c2, sitesChanged, tr) \<Rightarrow>
          (case checkWorktreeClean (Status_second git) of
             None \<Rightarrow> (None, c2, tr)
           | Some notClean \<Rightarrow>
               (case commit_step cfg git opts sitesChanged of
                  (e, tr4) \<Rightarrow> (e, c2, tr @ tr4))))"

text \<open>Classes of effects.\<close>

fun is_read :: "event \<Rightarrow> bool" where
  "is_read (EvReadDir d) = True"
| "is_read (EvReadFile f) = True"
| "is_read e = False"

fun is_save :: "event \<Rightarrow> bool" where
  "is_save (EvSave n) = True"
| "is_save (EvWriteFile f) = True"
| "is_save e = False"

fun is_stage :: "event \<Rightarrow> bool" where
  "is_stage (EvStage f) = True"
| "is_stage e = False"

fun is_commit :: "event \<Rightarrow> bool" where
  "is_commit (EvCommit m) = True"
| "is_commit e = False"

fun is_push :: "event \<Rightarrow> bool" where
  "is_push EvPush = True"
| "is_push e = False"

fun is_finish :: "event \<Rightarrow> bool" where
  "is_finish (EvFinishGrant a r) = True"
| "is_finish e = False"

fun is_enqueue :: "event \<Rightarrow> bool" where
  "is_enqueue (EvEnqueue opts) = True"
| "is_enqueue e = False"

text \<open>The names of the sites on which \<open>Save\<close> was called, in order.\<close>

definition saved_names :: "event list \<Rightarrow> string list" where
  "saved_names tr = List.map_filter (\<lambda>e. case e of EvSave n \<Rightarrow> Some n | _ \<Rightarrow> None) tr"

text \<open>
  The format of the commit message in the words of the specification:
  \<open><summary>. Sites changed: <count> (cmd=<origin>, src=<ledger-name>)\<close>.
\<close>

definition spec_commit_message :: "string \<Rightarrow> nat \<Rightarrow> string \<Rightarrow> string \<Rightarrow> string" where
  "spec_commit_message summary count origin ledger =
     summary @ ''. Sites changed: '' @ fmt_d (int count)
       @ '' (cmd='' @ origin @ '', src='' @ ledger @ '')''"

section \<open>The ledger client (package newerpol)\<close>

text \<open>
  The table \<open>dbo.WebserverAccess\<close>, reduced to the two columns that the update
  statements read and write: \<open>ID\<close> and \<open>RequestStatus\<close> of each row. Both statements
  are \<open>UPDATE ... SET RequestStatus = new WHERE ID = ? AND RequestStatus = ?\<close>; the
  result of running one is the table after it and the number of rows it affected.
\<close>

type_synonym table = "(int \<times> int) list"

definition new_status :: "query \<Rightarrow> int" where
  "new_status q = (case q of grantPendingToGrantedQuery \<Rightarrow> 2 | revokePendingToRevokedQuery \<Rightarrow> 4)"

definition exec_update :: "query \<Rightarrow> int \<Rightarrow> int \<Rightarrow> table \<Rightarrow> table \<times> nat" where
  "exec_update q i st t =
     (map (\<lambda>(rid, rst). if rid = i \<and> rst = st then (rid, new_status q) else (rid, rst)) t,
      length (filter (\<lambda>(rid, rst). rid = i \<and> rst = st) t))"

text \<open>
  The database handle with the two package variables that cache the prepared statements,
  and what the driver answers to \<open>Prepare\<close> and \<open>Exec\<close> (an error message, or nothing).
\<close>

record newerpolDb =
  WebserverAccess :: table
  grantPendingToGrantedQueryPrepared :: bool
  revokePendingToRevokedQueryPrepared :: bool

record sql_env =
  Prepare_err :: "query \<Rightarrow> string option"
  Exec_err :: "query \<Rightarrow> int \<Rightarrow> int \<Rightarrow> string option"

definition IsPending :: "AccessRecord \<Rightarrow> bool" where
  "IsPending a \<longleftrightarrow> RequestStatus a = AccessGrantPending \<or> RequestStatus a = AccessRevokePending"

text \<open>The statement \<open>FinishGrant\<close> picks, and its preparation on first use.\<close>

definition grant_query :: "AccessRecord \<Rightarrow> query" where
  "grant_query a =
     (if RequestStatus a = AccessGrantPending then grantPendingToGrantedQuery
      else revokePendingToRevokedQuery)"

definition prepare_stmt :: "sql_env \<Rightarrow> query \<Rightarrow> newerpolDb \<Rightarrow> error + newerpolDb" where
  "prepare_stmt sql q db =
     (case q of
        grantPendingToGrantedQuery \<Rightarrow>
          if \<not> grantPendingToGrantedQueryPrepared db then
            (case Prepare_err sql q of
               Some m \<Rightarrow> Inl (ErrPrepare q m)
             | None \<Rightarrow> Inr (db\<lparr>grantPendingToGrantedQueryPrepared := True\<rparr>))
          else Inr db
      | revokePendingToRevokedQuery \<Rightarrow>
          if \<not> revokePendingToRevokedQueryPrepared db then
            (case Prepare_err sql q of
               Some m \<Rightarrow> Inl (ErrPrepare q m)
             | None \<Rightarrow> Inr (db\<lparr>revokePendingToRevokedQueryPrepared := True\<rparr>))
          else Inr db)"

definition FinishGrant :: "sql_env \<Rightarrow> AccessRecord \<Rightarrow> newerpolDb \<Rightarrow> (error + bool) \<times> newerpolDb" where
  "FinishGrant sql a db =
     (if RequestStatus a = AccessGranted \<or> RequestStatus a = AccessRevoked
      then (Inl (ErrGrantFinished a), db)
      else
        case prepare_stmt sql (grant_query a) db of
          Inl e \<Rightarrow> (Inl e, db)
        | Inr db1 \<Rightarrow>
            (case Exec_err sql (grant_query a) (AccessId a) (RequestStatus a) of
               Some m \<Rightarrow> (Inl (ErrExec a m), db1)
             | None \<Rightarrow>
                 (case exec_update (grant_query a) (AccessId a) (RequestStatus a)
                         (WebserverAccess db1) of
                    (t, ra) \<Rightarrow>
                      (if ra = 0 then (Inr False, db1\<lparr>WebserverAccess := t\<rparr>)
                       else (Inr True, db1\<lparr>WebserverAccess := t\<rparr>)))))"

section \<open>Notifications (package email)\<close>

text \<open>
  \<open>StartWorker\<close> dials the SMTP server once to see that it answers; \<open>SendEmail\<close> checks
  the type, renders the two templates and puts the message on the worker's channel.
\<close>

record email_env =
  Dial_err :: "string option"
  ParseFiles_err :: "string \<Rightarrow> string option"
  ExecuteTemplate_err :: "EmailOptions \<Rightarrow> string option"

definition allowedTypes :: "string \<Rightarrow> bool" where
  "allowedTypes t \<longleftrightarrow> t = ''granted'' \<or> t = ''revoked'' \<or> t = ''test''"

definition StartWorker :: "email_env \<Rightarrow> bool \<Rightarrow> error option \<times> bool \<times> event list" where
  "StartWorker em started =
     (if started then (None, started, [])
      else case Dial_err em of
             Some m \<Rightarrow> (Some (ErrDial m), started, [])
           | None \<Rightarrow> (None, True, [EvStartWorker]))"

definition SendEmail :: "email_env \<Rightarrow> EmailOptions \<Rightarrow> error option \<times> event list" where
  "SendEmail em opts =
     (if \<not> allowedTypes (Type opts) then (Some (ErrEmailType (Type opts)), [])
      else case ParseFiles_err em (Type opts) of
             Some m \<Rightarrow> (Some (ErrEmailTemplate (Type opts) m), [])
           | None \<Rightarrow>
               (case ExecuteTemplate_err em opts of
                  Some m \<Rightarrow> (Some (ErrEmailTemplate (Type opts) m), [])
                | None \<Rightarrow> (None, [EvEnqueue opts])))"

section \<open>The sync command (cmd/pugo/cmd/sync.go)\<close>

record syncOptions =
  dryRun :: bool
  forceUpdateTree :: bool
  noPush :: bool
  noEmail :: bool
  recipientOverride :: string

text \<open>
  What the ledger answers to the connection and to the two queries (the grants grouped by
  site id), together with the other environments. \<open>log.Fatal\<close> ends the process: a run
  either ends in such an error or returns.
\<close>

record sync_env =
  env_cfg :: config
  env_fs :: fs_env
  env_git :: git_env
  env_sql :: sql_env
  env_em :: email_env
  Connect_err :: "string option"
  GetGrantsToAdd :: "string + (int \<times> AccessRecord list) list"
  GetGrantsToRevoke :: "string + (int \<times> AccessRecord list) list"

record sync_state =
  st_cache :: sitesCacheStruct
  st_db :: newerpolDb
  worker_started :: bool

text \<open>
  The goroutine of one site and one verb: every grant of its list is applied to the site;
  the site id goes to \<open>siteIdsChanged\<close> whenever the site is marked as changed after the
  grant, and the grant goes to \<open>grantsProcessed\<close>.
\<close>

fun apply_grants ::
  "string \<Rightarrow> nat \<Rightarrow> sitesCacheStruct \<Rightarrow> AccessRecord list \<Rightarrow>
     sitesCacheStruct \<times> int list \<times> AccessRecord list" where
  "apply_grants verb p c [] = (c, [], [])"
| "apply_grants verb p c (accessRecord # rest) =
     (let s = sites c ! p;
          s' = (if verb = ''add'' then AddAdmin s (Login accessRecord)
                else if verb = ''revoke'' then RemoveAdmin s (Login accessRecord)
                else s);
          c' = c\<lparr>sites := (sites c)[p := s']\<rparr>
      in case apply_grants verb p c' rest of
           (c'', siteIdsChanged, grantsProcessed) \<Rightarrow>
             (c'',
              (if Changed s' then Id s' # siteIdsChanged else siteIdsChanged),
              accessRecord # grantsProcessed))"

text \<open>
  The loop that starts the goroutines, over both verbs and the sites of each. A site
  that the store does not know is skipped; a store that failed to load ends the run.
  The goroutines run here one after the other in the order they are started, so the two
  channels are filled in that order.
\<close>

fun process_grants ::
  "config \<Rightarrow> fs_env \<Rightarrow> sitesCacheStruct \<Rightarrow> (string \<times> int \<times> AccessRecord list) list \<Rightarrow>
     error option \<times> sitesCacheStruct \<times> int list \<times> AccessRecord list \<times> event list" where
  "process_grants cfg fs c [] = (None, c, [], [], [])"
| "process_grants cfg fs c ((verb, i, grantRecords) # rest) =
     (case GetSiteById cfg fs c i of
        (Inl e, c1, tr) \<Rightarrow> (Some e, c1, [], [], tr)
      | (Inr None, c1, tr) \<Rightarrow>
          (case process_grants cfg fs c1 rest of
             (e, c2, ids, recs, tr') \<Rightarrow> (e, c2, ids, recs, tr @ tr'))
      | (Inr (Some p), c1, tr) \<Rightarrow>
          (case deref c1 p of
             None \<Rightarrow>
               (case process_grants cfg fs c1 rest of
                  (e, c2, ids, recs, tr') \<Rightarrow> (e, c2, ids, recs, tr @ tr'))
           | Some s \<Rightarrow>
               (case apply_grants verb p c1 grantRecords of
                  (c2, ids1, recs1) \<Rightarrow>
                    (case process_grants cfg fs c2 rest of
                       (e, c3, ids, recs, tr') \<Rightarrow> (e, c3, ids1 @ ids, recs1 @ recs, tr @ tr')))))"

definition grant_jobs ::
  "(int \<times> AccessRecord list) list \<Rightarrow> (int \<times> AccessRecord list) list \<Rightarrow>
     (string \<times> int \<times> AccessRecord list) list" where
  "grant_jobs toAdd toRevoke =
     map (\<lambda>(i, recs). (''add'', i, recs)) (go_range toAdd)
     @ map (\<lambda>(i, recs). (''revoke'', i, recs)) (go_range toRevoke)"

definition siteIdsToCommit :: "int list \<Rightarrow> (int \<times> bool) list" where
  "siteIdsToCommit siteIdsChanged = foldl (\<lambda>m i. AList.update i True m) [] siteIdsChanged"

text \<open>The notification for a finalized grant, up to the call of \<open>SendEmail\<close>.\<close>

definition email_for :: "syncOptions \<Rightarrow> AccessRecord \<Rightarrow> Site \<Rightarrow> EmailOptions option" where
  "email_for so accessRecord s =
     (let o1 = \<lparr>CSP = AccessRecord.CSP accessRecord,
                Email = AccessRecord.Email accessRecord,
                EmailName = LookupName accessRecord,
                FirstName = AccessRecord.FirstName accessRecord,
                Folder = name s, Subject = [], Type = []\<rparr>
      in if Email o1 = [] then None
         else
           let o2 = (if RequestStatus accessRecord = AccessGrantPending
                     then o1\<lparr>Subject := ''Website Access Granted'', Type := ''granted''\<rparr>
                     else if RequestStatus accessRecord = AccessRevokePending
                     then o1\<lparr>Subject := ''Website Access Removed'', Type := ''revoked''\<rparr>
                     else o1);
               o3 = (if recipientOverride so \<noteq> [] then o2\<lparr>Email := recipientOverride so\<rparr> else o2)
           in Some o3)"

definition notify ::
  "sync_env \<Rightarrow> syncOptions \<Rightarrow> AccessRecord \<Rightarrow> sitesCacheStruct \<Rightarrow> sitesCacheStruct \<times> event list" where
  "notify env so accessRecord c =
     (case GetSiteById (env_cfg env) (env_fs env) c (WebsiteId accessRecord) of
        (Inl e, c1, tr) \<Rightarrow> (c1, tr)
      | (Inr None, c1, tr) \<Rightarrow> (c1, tr)
      | (Inr (Some p), c1, tr) \<Rightarrow>
          (case deref c1 p of
             None \<Rightarrow> (c1, tr)
           | Some s \<Rightarrow>
               (case email_for so accessRecord s of
                  None \<Rightarrow> (c1, tr)
                | Some emailOpts \<Rightarrow>
                    (case SendEmail (env_em env) emailOpts of (e, tr') \<Rightarrow> (c1, tr @ tr')))))"

text \<open>
  The loop over \<open>grantsProcessed\<close> after the commit: nothing is finalized in a dry run;
  an error of \<open>FinishGrant\<close> ends the run; a notification is attempted when the grant was
  updated and emails are being sent, and its failure is only logged.
\<close>

fun finish_grants ::
  "sync_env \<Rightarrow> syncOptions \<Rightarrow> bool \<Rightarrow> sync_state \<Rightarrow> AccessRecord list \<Rightarrow>
     error option \<times> sync_state \<times> event list" where
  "finish_grants env so sendEmails st [] = (None, st, [])"
| "finish_grants env so sendEmails st (accessRecord # rest) =
     (if dryRun so then finish_grants env so sendEmails st rest
      else
        case FinishGrant (env_sql env) accessRecord (st_db st) of
          (Inl e, db1) \<Rightarrow> (Some e, st\<lparr>st_db := db1\<rparr>, [EvFinishGrant accessRecord (Inl e)])
        | (Inr updated, db1) \<Rightarrow>
            (let (c1, tr) = (if updated \<and> sendEmails then notify env so accessRecord (st_cache st)
                             else (st_cache st, []))
             in case finish_grants env so sendEmails (st\<lparr>st_db := db1, st_cache := c1\<rparr>) rest of
                  (e, st', tr') \<Rightarrow>
                    (e, st', EvFinishGrant accessRecord (Inr updated) # tr @ tr')))"

definition start_emails :: "sync_env \<Rightarrow> syncOptions \<Rightarrow> bool \<Rightarrow> bool \<times> bool \<times> event list" where
  "start_emails env so started =
     (if \<not> dryRun so \<and> \<not> noEmail so then
        (case StartWorker (env_em env) started of
           (Some e, started', tr) \<Rightarrow> (False, started', tr)
         | (None, started', tr) \<Rightarrow> (True, started', tr))
      else (False, started, []))"

definition doSync :: "sync_env \<Rightarrow> syncOptions \<Rightarrow> sync_state \<Rightarrow> error option \<times> sync_state \<times> event list" where
  "doSync env so st =
     (case Connect_err env of
        Some m \<Rightarrow> (Some (ErrConnect m), st, [])
      | None \<Rightarrow>
      (case GetGrantsToAdd env of
        Inl m \<Rightarrow> (Some (ErrGetGrants m), st, [])
      | Inr toAdd \<Rightarrow>
      (case GetGrantsToRevoke env of
        Inl m \<Rightarrow> (Some (ErrGetGrants m), st, [])
      | Inr toRevoke \<Rightarrow>
      (case process_grants (env_cfg env) (env_fs env) (st_cache st) (grant_jobs toAdd toRevoke) of
        (Some e, c1, siteIdsChanged, grantsProcessed, tr1) \<Rightarrow> (Some e, st\<lparr>st_cache := c1\<rparr>, tr1)
      | (None, c1, siteIdsChanged, grantsProcessed, tr1) \<Rightarrow>
      (let commitOpts = \<lparr>Ids = Some (siteIdsToCommit siteIdsChanged), Message = ''Update admins'',
                         Cmd = ''sync'', DryRun = dryRun so,
                         ForceUpdateTree = forceUpdateTree so, NoPush = noPush so\<rparr>
       in case CommitSites (env_cfg env) (env_fs env) (env_git env) c1 commitOpts of
            (Some e, c2, tr2) \<Rightarrow>
              (Some e, st\<lparr>st_cache := c2\<rparr>, tr1 @ tr2 @ [EvCommitSitesReturned (Some e)])
          | (None, c2, tr2) \<Rightarrow>
      (case start_emails env so (worker_started st) of
        (sendEmails, started, tr3) \<Rightarrow>
      (case finish_grants env so sendEmails (st\<lparr>st_cache := c2, worker_started := started\<rparr>)
              grantsProcessed of
        (Some e, st', tr4) \<Rightarrow>
          (Some e, st', tr1 @ tr2 @ [EvCommitSitesReturned None] @ tr3 @ tr4)
      | (None, st', tr4) \<Rightarrow>
          (None, st'\<lparr>worker_started := (if sendEmails then False else worker_started st')\<rparr>,
           tr1 @ tr2 @ [EvCommitSitesReturned None] @ tr3 @ tr4
             @ (if sendEmails then [EvShutdownWorker] else [])))))))))"

fun is_return :: "event \<Rightarrow> bool" where
  "is_return (EvCommitSitesReturned r) = True"
| "is_return e = False"

text \<open>Events that are neither a finalization, nor a notification, nor the return of the commit step.\<close>

definition quiet :: "event \<Rightarrow> bool" where
  "quiet ev \<longleftrightarrow> \<not> is_finish ev \<and> \<not> is_enqueue ev \<and> \<not> is_return ev"

section \<open>Concrete inputs\<close>

text \<open>Inputs on which the theorems below are instantiated and evaluated.\<close>

definition site0 :: Site where
  "site0 = \<lparr>Id = 42, Admins = [''al'', ''xyz''], name = ''chess'', changed = False\<rparr>"

definition site1 :: Site where
  "site1 = \<lparr>Id = 7, Admins = [''bob'', ''al''], name = ''drama'', changed = False\<rparr>"

definition site2 :: Site where
  "site2 = \<lparr>Id = 8, Admins = [''kim'', ''eve'', ''joe''], name = ''film'', changed = False\<rparr>"

definition cfg0 :: config where
  "cfg0 = \<lparr>cdb_path = ''/srv/icu-cdb'', cdb_branch = ''master'', cdb_author_name = ''pugo'',
            cdb_author_email = ''pugo@example.com'', newerpol_name = ''newerpol'',
            newerpol_database = ''eactivities''\<rparr>"

text \<open>
  A directory with one record file and one other file; the record is site 42 with the
  access list \<open>[al, xyz]\<close>. Every read and write succeeds.
\<close>

definition fs0 :: fs_env where
  "fs0 = \<lparr>ReadDir = (\<lambda>d. Inr [''chess.yaml'', ''README'']),
           ReadFile = (\<lambda>f. Inr ''id: 42''),
           Unmarshal = (\<lambda>d s. Inr (s\<lparr>Id := 42, Admins := [''al'', ''xyz'']\<rparr>)),
           Marshal = (\<lambda>s. Inr ''id: 42''),
           WriteFile = (\<lambda>f d. None)\<rparr>"

text \<open>The same directory on a disk that refuses every write.\<close>

definition fs_readonly :: fs_env where
  "fs_readonly = fs0\<lparr>WriteFile := (\<lambda>f d. Some ''read-only file system'')\<rparr>"

text \<open>
  A ledger with three rows (grant 1 pending, grant 2 pending revocation, grant 3 already
  granted), a driver that never fails, and the matching grants.
\<close>

definition db0 :: newerpolDb where
  "db0 = \<lparr>WebserverAccess = [(1, 1), (2, 3), (3, 2)],
           grantPendingToGrantedQueryPrepared = False,
           revokePendingToRevokedQueryPrepared = False\<rparr>"

definition sql0 :: sql_env where
  "sql0 = \<lparr>Prepare_err = (\<lambda>q. None), Exec_err = (\<lambda>q i st. None)\<rparr>"

definition grant_abc :: AccessRecord where
  "grant_abc = \<lparr>AccessId = 1, WebsiteId = 42, RequestStatus = 1, FirstName = ''Ann'',
                 LookupName = ''Ann Bell Clark'', Login = ''abc'', Email = ''abc@example.com'',
                 CSP = ''Chess''\<rparr>"

definition grant_xyz :: AccessRecord where
  "grant_xyz = \<lparr>AccessId = 2, WebsiteId = 42, RequestStatus = 3, FirstName = ''Xav'',
                 LookupName = ''Xav Young Zed'', Login = ''xyz'', Email = ''xyz@example.com'',
                 CSP = ''Chess''\<rparr>"

definition grant_done :: AccessRecord where
  "grant_done = \<lparr>AccessId = 3, WebsiteId = 42, RequestStatus = 2, FirstName = ''Dee'',
                  LookupName = ''Dee Oh'', Login = ''deo'', Email = ''deo@example.com'',
                  CSP = ''Chess''\<rparr>"

text \<open>
  A repository on the branch \<open>master\<close> whose working tree is clean when it is acquired
  and has a difference to commit after staging; every git call succeeds.
\<close>

definition git0 :: git_env where
  "git0 = \<lparr>PlainOpen_err = None, Worktree_err = None, Status_first = Inr True,
            Head_first = Inr ''refs/heads/master'', Checkout_err = None,
            Head_second = Inr ''refs/heads/master'', Pull_result = NoErrAlreadyUpToDate,
            Add_err = (\<lambda>f. None), Status_second = Inr False, Commit_err = None,
            PlainOpen_push_err = None, Push_err = None\<rparr>"

text \<open>The same repository when staging leaves no difference, and when it is dirty at the start.\<close>

definition git_clean :: git_env where
  "git_clean = git0\<lparr>Status_second := Inr True\<rparr>"

definition git_dirty :: git_env where
  "git_dirty = git0\<lparr>Status_first := Inr False\<rparr>"

text \<open>The store after loading \<open>fs0\<close> and adding \<open>abc\<close> to site 42.\<close>

definition cache_changed :: sitesCacheStruct where
  "cache_changed =
     \<lparr>byId = [(42, 0)], byName = [(''chess'', 0)], initOnce = True, initError = None,
      slice = [0],
      sites = [\<lparr>Id = 42, Admins = [''abc'', ''al'', ''xyz''], name = ''chess'', changed = True\<rparr>]\<rparr>"

definition opts_sync :: CommitSitesOptions where
  "opts_sync = \<lparr>Ids = Some [(42, True)], Message = ''Update admins'', Cmd = ''sync'',
                 DryRun = False, ForceUpdateTree = False, NoPush = False\<rparr>"

definition opts_dry :: CommitSitesOptions where
  "opts_dry = opts_sync\<lparr>DryRun := True\<rparr>"

definition opts_force :: CommitSitesOptions where
  "opts_force = opts_sync\<lparr>DryRun := True, ForceUpdateTree := True\<rparr>"

text \<open>A file system whose directory of sites cannot be read.\<close>

definition fs_broken :: fs_env where
  "fs_broken = fs0\<lparr>ReadDir := (\<lambda>d. Inl ''no such file or directory'')\<rparr>"

text \<open>
  A sync run: the ledger holds one pending grant (\<open>abc\<close>) and one pending revocation
  (\<open>xyz\<close>) for site 42; the store has not been loaded yet; the mail server answers.
\<close>

definition em0 :: email_env where
  "em0 = \<lparr>Dial_err = None, ParseFiles_err = (\<lambda>t. None), ExecuteTemplate_err = (\<lambda>opts. None)\<rparr>"

definition env0 :: sync_env where
  "env0 = \<lparr>env_cfg = cfg0, env_fs = fs0, env_git = git0, env_sql = sql0, env_em = em0,
            Connect_err = None,
            GetGrantsToAdd = Inr [(42, [grant_abc])],
            GetGrantsToRevoke = Inr [(42, [grant_xyz])]\<rparr>"

definition env_dirty :: sync_env where
  "env_dirty = env0\<lparr>env_git := git_dirty\<rparr>"

definition so0 :: syncOptions where
  "so0 = \<lparr>dryRun = False, forceUpdateTree = False, noPush = False, noEmail = False,
           recipientOverride = []\<rparr>"

definition st0 :: sync_state where
  "st0 = \<lparr>st_cache = sitesCache_initial, st_db = db0, worker_started = False\<rparr>"

section \<open>The access list of a record\<close>

subsection \<open>The binary search finds the insertion point of a sorted slice\<close>

lemma Search_loop_stop: "\<not> i < j \<Longrightarrow> Search_loop f i j = i"
  by (subst Search_loop.simps) simp

lemma Search_loop_right:
  "i < j \<Longrightarrow> \<not> f ((i + j) div 2) \<Longrightarrow> Search_loop f i j = Search_loop f ((i + j) div 2 + 1) j"
  by (subst Search_loop.simps) (simp add: Let_def)

lemma Search_loop_left:
  "i < j \<Longrightarrow> f ((i + j) div 2) \<Longrightarrow> Search_loop f i j = Search_loop f i ((i + j) div 2)"
  by (subst Search_loop.simps) (simp add: Let_def)

lemma Search_loop_bounds:
  "i \<le> j \<Longrightarrow> i \<le> Search_loop f i j \<and> Search_loop f i j \<le> j"
proof (induction f i j rule: Search_loop.induct)
  case (1 f i j)
  show ?case
  proof (cases "i < j")
    case False
    with "1.prems" show ?thesis by (simp add: Search_loop_stop)
  next
    case True
    let ?h = "(i + j) div 2"
    from True have h: "i \<le> ?h" "?h < j" by auto
    show ?thesis
    proof (cases "f ?h")
      case True
      with "1.IH"(2)[of ?h] \<open>i < j\<close> h show ?thesis
        by (simp add: Search_loop_left)
    next
      case False
      with "1.IH"(1)[of ?h] \<open>i < j\<close> h show ?thesis
        by (simp add: Search_loop_left Search_loop_right)
    qed
  qed
qed

lemma Search_loop_below:
  "i \<le> j \<Longrightarrow> \<forall>k<i. \<not> f k \<Longrightarrow> (\<And>a b. a \<le> b \<Longrightarrow> b < n \<Longrightarrow> f a \<Longrightarrow> f b) \<Longrightarrow> j \<le> n
    \<Longrightarrow> \<forall>k<Search_loop f i j. \<not> f k"
proof (induction f i j rule: Search_loop.induct)
  case (1 f i j)
  show ?case
  proof (cases "i < j")
    case False
    with "1.prems" show ?thesis by (simp add: Search_loop_stop)
  next
    case True
    let ?h = "(i + j) div 2"
    from True have h: "i \<le> ?h" "?h < j" by auto
    show ?thesis
    proof (cases "f ?h")
      case True
      with "1.IH"(2)[of ?h] "1.prems" \<open>i < j\<close> h show ?thesis
        by (simp add: Search_loop_left Search_loop_right)
    next
      case False
      have "\<forall>k<?h + 1. \<not> f k"
      proof (intro allI impI)
        fix k assume "k < ?h + 1"
        then have "k \<le> ?h" by simp
        with "1.prems"(3)[of k ?h] h "1.prems"(4) False show "\<not> f k" by auto
      qed
      with "1.IH"(1)[of ?h] "1.prems" False \<open>i < j\<close> h show ?thesis
        by (simp add: Search_loop_left Search_loop_right)
    qed
  qed
qed

lemma Search_loop_above:
  "i \<le> j \<Longrightarrow> j \<le> n \<Longrightarrow> \<forall>k. j \<le> k \<and> k < n \<longrightarrow> f k \<Longrightarrow> (\<And>a b. a \<le> b \<Longrightarrow> b < n \<Longrightarrow> f a \<Longrightarrow> f b)
    \<Longrightarrow> \<forall>k. Search_loop f i j \<le> k \<and> k < n \<longrightarrow> f k"
proof (induction f i j rule: Search_loop.induct)
  case (1 f i j)
  show ?case
  proof (cases "i < j")
    case False
    with "1.prems" show ?thesis by (simp add: Search_loop_stop)
  next
    case True
    let ?h = "(i + j) div 2"
    from True have h: "i \<le> ?h" "?h < j" by auto
    show ?thesis
    proof (cases "f ?h")
      case True
      have "\<forall>k. ?h \<le> k \<and> k < n \<longrightarrow> f k"
        using "1.prems"(4)[of ?h] True by blast
      with "1.IH"(2)[of ?h] "1.prems" True \<open>i < j\<close> h show ?thesis
        by (simp add: Search_loop_left Search_loop_right)
    next
      case False
      with "1.IH"(1)[of ?h] "1.prems" \<open>i < j\<close> h show ?thesis
        by (simp add: Search_loop_left Search_loop_right)
    qed
  qed
qed

lemma SearchStrings_le: "SearchStrings a x \<le> length a"
  using Search_loop_bounds[of 0 "length a"] by (simp add: SearchStrings_def Search_def)

lemma SearchStrings_below:
  assumes "sorted a" "k < SearchStrings a x"
  shows "a ! k < x"
proof -
  have mono: "\<And>p q. p \<le> q \<Longrightarrow> q < length a \<Longrightarrow> x \<le> a ! p \<Longrightarrow> x \<le> a ! q"
    using assms(1) by (meson order_trans sorted_nth_mono)
  have "\<forall>k<Search_loop (\<lambda>i. x \<le> a ! i) 0 (length a). \<not> x \<le> a ! k"
    by (rule Search_loop_below[where n = "length a"]) (use mono in auto)
  with assms(2) show ?thesis by (auto simp add: SearchStrings_def Search_def)
qed

lemma SearchStrings_above:
  assumes "sorted a" "SearchStrings a x \<le> k" "k < length a"
  shows "x \<le> a ! k"
proof -
  have mono: "\<And>p q. p \<le> q \<Longrightarrow> q < length a \<Longrightarrow> x \<le> a ! p \<Longrightarrow> x \<le> a ! q"
    using assms(1) by (meson order_trans sorted_nth_mono)
  have "\<forall>k. Search_loop (\<lambda>i. x \<le> a ! i) 0 (length a) \<le> k \<and> k < length a \<longrightarrow> x \<le> a ! k"
    by (rule Search_loop_above[where n = "length a"]) (use mono in auto)
  with assms(2,3) show ?thesis by (simp add: SearchStrings_def Search_def)
qed


subsection \<open>Shifting the slice by one\<close>

lemma length_copy_at: "off \<le> length dst \<Longrightarrow> length (copy_at dst off src) = length dst"
  by (auto simp: copy_at_def Let_def min_def)

lemma insert_shift:
  assumes "pos < length a"
  shows "(copy_at (a @ [e]) (pos + 1) (drop pos (a @ [e])))[pos := x] = take pos a @ x # drop pos a"
proof -
  have c: "copy_at (a @ [e]) (pos + 1) (drop pos (a @ [e])) = take (pos + 1) a @ drop pos a"
    using assms by (simp add: copy_at_def Let_def min_def)
  have "take (pos + 1) a = take pos a @ [a ! pos]"
    using assms by (simp add: take_Suc_conv_app_nth)
  then have "(take (pos + 1) a @ drop pos a)[pos := x] = take pos a @ x # drop pos a"
    using assms by (simp add: list_update_append)
  with c show ?thesis by simp
qed

lemma remove_shift:
  assumes "pos < length a"
  shows "(let a1 = (if pos < length a - 1 then copy_at a pos (drop (pos + 1) a) else a);
              a2 = a1[length a1 - 1 := e]
          in take (length a2 - 1) a2) = take pos a @ drop (pos + 1) a"
proof (cases "pos < length a - 1")
  case True
  have n: "min (length a - pos) (length a - (pos + 1)) = length a - (pos + 1)" by simp
  have d: "pos + (length a - (pos + 1)) = length a - 1" using assms by simp
  have "a \<noteq> []" using assms by auto
  then have "drop (length a - 1) a = [last a]"
    by (metis append_butlast_last_id append_eq_conv_conj length_butlast)
  then have c: "copy_at a pos (drop (pos + 1) a) = take pos a @ drop (pos + 1) a @ [last a]"
    unfolding copy_at_def Let_def length_drop n d by simp
  have l: "length (take pos a @ drop (pos + 1) a @ [last a]) = length a"
    using assms by simp
  show ?thesis
    unfolding Let_def using True c l assms by (simp add: min_def)
next
  case False
  with assms have p: "pos = length a - 1" by simp
  with assms show ?thesis by (simp add: Let_def)
qed


subsection \<open>Insertion and removal at the position found\<close>

lemma search_take_less:
  assumes "sorted a" "y \<in> set (take (SearchStrings a x) a)"
  shows "y < x"
proof -
  from assms(2) obtain k where k: "k < length (take (SearchStrings a x) a)" "take (SearchStrings a x) a ! k = y"
    by (auto simp: in_set_conv_nth)
  then have "k < SearchStrings a x" by simp
  with assms(1) k show ?thesis using SearchStrings_below by fastforce
qed

lemma search_drop_ge:
  assumes "sorted a" "y \<in> set (drop (SearchStrings a x) a)"
  shows "x \<le> y"
proof -
  from assms(2) obtain k where k: "k < length (drop (SearchStrings a x) a)" "drop (SearchStrings a x) a ! k = y"
    by (auto simp: in_set_conv_nth)
  then have "SearchStrings a x + k < length a" by simp
  with assms(1) k show ?thesis
    using SearchStrings_above[of a x "SearchStrings a x + k"] SearchStrings_le[of a x] by simp
qed

lemma search_hit_iff:
  assumes "sorted a"
  shows "(SearchStrings a x < length a \<and> a ! SearchStrings a x = x) \<longleftrightarrow> x \<in> set a"
proof
  assume "SearchStrings a x < length a \<and> a ! SearchStrings a x = x"
  then show "x \<in> set a" using nth_mem[of "SearchStrings a x" a] by simp
next
  assume "x \<in> set a"
  then have "x \<in> set (take (SearchStrings a x) a @ drop (SearchStrings a x) a)" by simp
  then have "x \<in> set (take (SearchStrings a x) a) \<or> x \<in> set (drop (SearchStrings a x) a)"
    by (simp only: set_append Un_iff)
  with search_take_less[OF assms, of x x] have d: "x \<in> set (drop (SearchStrings a x) a)" by auto
  then have ne: "drop (SearchStrings a x) a \<noteq> []" by auto
  then have lt: "SearchStrings a x < length a" by simp
  have hd: "a ! SearchStrings a x \<in> set (drop (SearchStrings a x) a)"
    using lt by (simp add: Cons_nth_drop_Suc[symmetric])
  have "sorted (drop (SearchStrings a x) a)" using assms by (simp add: sorted_wrt_drop)
  moreover have "drop (SearchStrings a x) a = a ! SearchStrings a x # drop (Suc (SearchStrings a x)) a"
    using lt by (simp add: Cons_nth_drop_Suc)
  ultimately have "sorted (a ! SearchStrings a x # drop (Suc (SearchStrings a x)) a)"
    and "x \<in> set (a ! SearchStrings a x # drop (Suc (SearchStrings a x)) a)" using d by simp_all
  then have "a ! SearchStrings a x \<le> x" by auto
  moreover have "x \<le> a ! SearchStrings a x" using search_drop_ge[OF assms hd] .
  ultimately show "SearchStrings a x < length a \<and> a ! SearchStrings a x = x" using lt by simp
qed

lemma insort_at_split:
  "\<forall>y\<in>set xs. y < x \<Longrightarrow> \<forall>y\<in>set ys. x \<le> y \<Longrightarrow> insort x (xs @ ys) = xs @ x # ys"
proof (induction xs)
  case Nil
  then show ?case by (cases ys) simp_all
next
  case (Cons z zs)
  then have "\<not> x \<le> z" by auto
  with Cons show ?case by simp
qed

lemma insert_at_search:
  assumes "sorted a"
  shows "take (SearchStrings a x) a @ x # drop (SearchStrings a x) a = insort x a"
proof -
  let ?p = "SearchStrings a x"
  have "insort x (take ?p a @ drop ?p a) = take ?p a @ x # drop ?p a"
    using search_take_less[OF assms] search_drop_ge[OF assms]
    by (intro insort_at_split) blast+
  then show ?thesis by simp
qed

lemma remove_at_search:
  assumes "sorted a" "x \<in> set a"
  shows "take (SearchStrings a x) a @ drop (SearchStrings a x + 1) a = remove1 x a"
proof -
  let ?p = "SearchStrings a x"
  from search_hit_iff[OF assms(1), of x] assms(2) have hit: "?p < length a" "a ! ?p = x" by auto
  then have a: "a = take ?p a @ x # drop (?p + 1) a"
    using id_take_nth_drop[of ?p a] by simp
  have "x \<notin> set (take ?p a)" using search_take_less[OF assms(1), of x x] by auto
  then have "remove1 x (take ?p a @ x # drop (?p + 1) a) = take ?p a @ drop (?p + 1) a"
    by (simp add: remove1_append)
  with a show ?thesis by simp
qed

subsection \<open>What the two operations compute\<close>

lemma AddAdmin_empty: "AddAdmin s [] = s"
  by (simp add: AddAdmin_def)

lemma RemoveAdmin_empty: "RemoveAdmin s [] = s"
  by (simp add: RemoveAdmin_def)

lemma AddAdmin_present:
  assumes "u \<in> set (Admins s)" "u \<noteq> []"
  shows "AddAdmin s u = s\<lparr>Admins := sort (Admins s)\<rparr>"
  using assms search_hit_iff[of "sort (Admins s)" u]
  by (simp add: AddAdmin_def Strings_def Let_def)

lemma AddAdmin_absent:
  assumes "u \<notin> set (Admins s)" "u \<noteq> []"
  shows "AddAdmin s u = s\<lparr>Admins := insort u (sort (Admins s)), changed := True\<rparr>"
proof -
  let ?a = "sort (Admins s)"
  let ?p = "SearchStrings ?a u"
  have miss: "\<not> (?p < length ?a \<and> ?a ! ?p = u)"
    using search_hit_iff[of ?a u] assms(1) by simp
  have le: "?p \<le> length ?a" by (rule SearchStrings_le)
  have ins: "take ?p ?a @ u # drop ?p ?a = insort u ?a"
    by (rule insert_at_search) simp
  show ?thesis
  proof (cases "?p = length ?a")
    case True
    with ins have "?a @ [u] = insort u ?a" by simp
    with True miss assms(2) show ?thesis
      by (simp add: AddAdmin_def Strings_def Let_def)
  next
    case False
    with le have lt: "?p < length ?a" by simp
    from insert_shift[OF lt, of "[]" u] ins
    have "(copy_at (?a @ [[]]) (?p + 1) (drop ?p (?a @ [[]])))[?p := u] = insort u ?a" by simp
    with False miss assms(2) show ?thesis
      by (auto simp add: AddAdmin_def Strings_def Let_def)
  qed
qed

lemma RemoveAdmin_absent:
  assumes "u \<notin> set (Admins s)" "u \<noteq> []"
  shows "RemoveAdmin s u = s\<lparr>Admins := sort (Admins s)\<rparr>"
  using assms search_hit_iff[of "sort (Admins s)" u]
  by (auto simp add: RemoveAdmin_def Strings_def Let_def)

lemma RemoveAdmin_present:
  assumes "u \<in> set (Admins s)" "u \<noteq> []"
  shows "RemoveAdmin s u = s\<lparr>Admins := remove1 u (sort (Admins s)), changed := True\<rparr>"
proof -
  let ?a = "sort (Admins s)"
  let ?p = "SearchStrings ?a u"
  have hit: "?p < length ?a \<and> ?a ! ?p = u"
    using search_hit_iff[of ?a u] assms(1) by simp
  then have lt: "?p < length ?a" by simp
  have "(let a1 = (if ?p < length ?a - 1 then copy_at ?a ?p (drop (?p + 1) ?a) else ?a);
             a2 = a1[length a1 - 1 := []]
         in take (length a2 - 1) a2) = remove1 u ?a"
    using remove_shift[OF lt, of "[]"] remove_at_search[of ?a u] assms(1) by simp
  with hit assms(2) show ?thesis
    by (simp add: RemoveAdmin_def Strings_def Let_def)
qed

lemma sorted_Admins_AddAdmin: "u \<noteq> [] \<Longrightarrow> sorted (Admins (AddAdmin s u))"
  by (cases "u \<in> set (Admins s)") (simp_all add: AddAdmin_present AddAdmin_absent sorted_insort)

lemma sorted_Admins_RemoveAdmin: "u \<noteq> [] \<Longrightarrow> sorted (Admins (RemoveAdmin s u))"
  by (cases "u \<in> set (Admins s)") (simp_all add: RemoveAdmin_present RemoveAdmin_absent sorted_remove1)

lemma admins_ok_AddAdmin: "admins_ok (Admins s) \<Longrightarrow> admins_ok (Admins (AddAdmin s u))"
proof (cases "u = []")
  case True
  assume "admins_ok (Admins s)"
  with True show ?thesis by (simp add: AddAdmin_empty)
next
  case False
  assume ok: "admins_ok (Admins s)"
  show ?thesis
  proof (cases "u \<in> set (Admins s)")
    case True
    with ok False show ?thesis by (simp add: AddAdmin_present admins_ok_def sorted_sort_id)
  next
    case notin: False
    with ok False show ?thesis
      by (simp add: AddAdmin_absent admins_ok_def sorted_insort distinct_insort set_insort_key)
  qed
qed

lemma admins_ok_RemoveAdmin: "admins_ok (Admins s) \<Longrightarrow> admins_ok (Admins (RemoveAdmin s u))"
proof (cases "u = []")
  case True
  assume "admins_ok (Admins s)"
  with True show ?thesis by (simp add: RemoveAdmin_empty)
next
  case False
  assume ok: "admins_ok (Admins s)"
  show ?thesis
  proof (cases "u \<in> set (Admins s)")
    case True
    with ok False show ?thesis
      by (auto simp add: RemoveAdmin_present admins_ok_def sorted_remove1 dest: notin_set_remove1)
  next
    case notin: False
    with ok False show ?thesis by (simp add: RemoveAdmin_absent admins_ok_def sorted_sort_id)
  qed
qed

lemma admins_ok_apply_admin_ops:
  "admins_ok (Admins s) \<Longrightarrow> admins_ok (Admins (apply_admin_ops s ops))"
  unfolding apply_admin_ops_def
proof (induction ops arbitrary: s)
  case Nil
  then show ?case by simp
next
  case (Cons op ops)
  have "admins_ok (Admins (apply_admin_op s op))"
    using Cons.prems by (cases op) (simp_all add: admins_ok_AddAdmin admins_ok_RemoveAdmin)
  then show ?case using Cons.IH by simp
qed

text \<open>
  Claim C1. Whatever sequence of \<open>AddAdmin\<close> and \<open>RemoveAdmin\<close> calls is applied to
  a site whose \<open>Admins\<close> slice is sorted, free of duplicates and free of the empty
  string, the resulting slice is again sorted, free of duplicates and free of the empty
  string. \<open>AddAdmin\<close> leaves the site alone on the empty string and otherwise inserts
  an absent name at its sorted position; \<open>RemoveAdmin\<close> removes the one entry equal
  to a non-empty name.
\<close>

theorem admins_sorted_set_invariant:
  "admins_ok (Admins s) \<Longrightarrow>
     admins_ok (Admins (apply_admin_ops s ops)) \<and>
     AddAdmin s [] = s \<and>
     (u \<noteq> [] \<longrightarrow> Admins (AddAdmin s u) = (if u \<in> set (Admins s) then Admins s else insort u (Admins s))) \<and>
     (u \<noteq> [] \<longrightarrow> Admins (RemoveAdmin s u) = remove1 u (Admins s)
                 \<and> set (Admins (RemoveAdmin s u)) = set (Admins s) - {u})"
proof -
  assume ok: "admins_ok (Admins s)"
  then have sd: "sort (Admins s) = Admins s" "distinct (Admins s)"
    by (simp_all add: admins_ok_def sorted_sort_id)
  have a: "u \<noteq> [] \<Longrightarrow> Admins (AddAdmin s u) = (if u \<in> set (Admins s) then Admins s else insort u (Admins s))"
    using sd by (simp add: AddAdmin_present AddAdmin_absent)
  have r: "u \<noteq> [] \<Longrightarrow> Admins (RemoveAdmin s u) = remove1 u (Admins s)"
    using sd by (cases "u \<in> set (Admins s)") (simp_all add: RemoveAdmin_present RemoveAdmin_absent remove1_idem)
  have "set (remove1 u (Admins s)) = set (Admins s) - {u}"
    using sd(2) by simp
  with a r admins_ok_apply_admin_ops[OF ok] show ?thesis
    by (simp add: AddAdmin_empty)
qed

theorem admins_sorted_set_invariant_witness:
  "admins_ok (Admins site0) \<and>
   Admins (apply_admin_ops site0 [Add ''abc'', Remove ''xyz'', Add [], Add ''al'']) = [''abc'', ''al''] \<and>
   admins_ok [''abc'', ''al''] \<and>
   Admins (AddAdmin site0 ''abc'') = [''abc'', ''al'', ''xyz''] \<and>
   Admins (RemoveAdmin site0 ''xyz'') = [''al'']"
proof -
  have h: "admins_ok (Admins site0)" by (simp add: site0_def admins_ok_def)
  have e: "Admins (apply_admin_ops site0 [Add ''abc'', Remove ''xyz'', Add [], Add ''al'']) = [''abc'', ''al'']"
    by code_simp
  from admins_sorted_set_invariant[OF h, of "[Add ''abc'', Remove ''xyz'', Add [], Add ''al'']" "''abc''"]
       admins_sorted_set_invariant[OF h, of "[]" "''xyz''"] h e
  show ?thesis by (simp add: site0_def)
qed

subsection \<open>The changed flag\<close>

lemma changed_AddAdmin:
  "changed (AddAdmin s u) \<longleftrightarrow> changed s \<or> (u \<noteq> [] \<and> u \<notin> set (Admins s))"
proof (cases "u = []")
  case True
  then show ?thesis by (simp add: AddAdmin_empty)
next
  case False
  then show ?thesis
    by (cases "u \<in> set (Admins s)") (simp_all add: AddAdmin_present AddAdmin_absent)
qed

lemma changed_RemoveAdmin:
  "changed (RemoveAdmin s u) \<longleftrightarrow> changed s \<or> (u \<noteq> [] \<and> u \<in> set (Admins s))"
proof (cases "u = []")
  case True
  then show ?thesis by (simp add: RemoveAdmin_empty)
next
  case False
  then show ?thesis
    by (cases "u \<in> set (Admins s)") (simp_all add: RemoveAdmin_present RemoveAdmin_absent)
qed

lemma LoadSite_unchanged: "LoadSite cfg fs fn = (Inr s, tr) \<Longrightarrow> \<not> changed s"
  by (auto simp: LoadSite_def Let_def NewSite_def split: if_splits sum.splits)

lemma Save_failure: "Save cfg fs s = (Some e, s', tr) \<Longrightarrow> s' = s"
  by (auto simp: Save_def split: sum.splits option.splits)

lemma Save_success: "Save cfg fs s = (None, s', tr) \<Longrightarrow> s' = s\<lparr>changed := False\<rparr>"
  by (auto simp: Save_def split: sum.splits option.splits)

text \<open>
  Claim C8, as amended. Adding a name that is present, or removing a name that is absent,
  never touches the changed flag, the identifier or the name of the site, and keeps the
  entries of \<open>Admins\<close>; the site is left exactly as it was when the name is empty or the
  slice was already sorted. For a non-empty name and an unsorted slice the call leaves the
  slice sorted, so it is not a no-op there.
\<close>

theorem present_absent_frame:
  "(u \<in> set (Admins s) \<longrightarrow>
      AddAdmin s u = (if u = [] then s else s\<lparr>Admins := sort (Admins s)\<rparr>) \<and>
      changed (AddAdmin s u) = changed s \<and>
      (sorted (Admins s) \<longrightarrow> AddAdmin s u = s)) \<and>
   (u \<notin> set (Admins s) \<longrightarrow>
      RemoveAdmin s u = (if u = [] then s else s\<lparr>Admins := sort (Admins s)\<rparr>) \<and>
      changed (RemoveAdmin s u) = changed s \<and>
      (sorted (Admins s) \<longrightarrow> RemoveAdmin s u = s))"
proof -
  have a: "u \<in> set (Admins s) \<Longrightarrow> AddAdmin s u = (if u = [] then s else s\<lparr>Admins := sort (Admins s)\<rparr>)"
    by (simp add: AddAdmin_empty AddAdmin_present)
  have r: "u \<notin> set (Admins s) \<Longrightarrow> RemoveAdmin s u = (if u = [] then s else s\<lparr>Admins := sort (Admins s)\<rparr>)"
    by (simp add: RemoveAdmin_empty RemoveAdmin_absent)
  have "sorted (Admins s) \<Longrightarrow> s\<lparr>Admins := sort (Admins s)\<rparr> = s"
    by (simp add: sorted_sort_id)
  with a r show ?thesis
    by (auto simp: changed_AddAdmin changed_RemoveAdmin)
qed

theorem present_absent_frame_witness:
  "''xyz'' \<in> set (Admins site0) \<and> ''abc'' \<notin> set (Admins site0) \<and> sorted (Admins site0) \<and>
   AddAdmin site0 ''xyz'' = site0 \<and> RemoveAdmin site0 ''abc'' = site0 \<and>
   ''al'' \<in> set (Admins site1) \<and> AddAdmin site1 ''al'' = site1\<lparr>Admins := [''al'', ''bob'']\<rparr>"
proof -
  have h: "''xyz'' \<in> set (Admins site0)" "''abc'' \<notin> set (Admins site0)" "sorted (Admins site0)"
    by (simp_all add: site0_def)
  have h1: "''al'' \<in> set (Admins site1)" "sort (Admins site1) = [''al'', ''bob'']"
    by (simp_all add: site1_def)
  have h0: "sort (Admins site0) = Admins site0" by (simp add: site0_def)
  from present_absent_frame[of "''xyz''" site0] present_absent_frame[of "''abc''" site0]
       present_absent_frame[of "''al''" site1] h h0 h1
  show ?thesis by simp
qed

theorem noop_on_unsorted_counterexample:
  "''al'' \<in> set (Admins site1) \<and> AddAdmin site1 ''al'' \<noteq> site1 \<and>
   ''zed'' \<notin> set (Admins site1) \<and> RemoveAdmin site1 ''zed'' \<noteq> site1"
proof -
  have a: "Admins (AddAdmin site1 ''al'') = [''al'', ''bob'']" by code_simp
  have r: "Admins (RemoveAdmin site1 ''zed'') = [''al'', ''bob'']" by code_simp
  have "Admins site1 = [''bob'', ''al'']" by (simp add: site1_def)
  with a r show ?thesis by (auto simp: site1_def)
qed

text \<open>
  Claim C9. The changed flag is false on a site made by \<open>NewSite\<close> and on a site
  returned by \<open>LoadSite\<close>; it is true after \<open>AddAdmin\<close> inserted a name, after
  \<open>RemoveAdmin\<close> removed one and after \<open>MarkAsChanged\<close>; none of the three ever clears
  it; \<open>Save\<close> clears it when it succeeds and returns the site as it was, flag included,
  when marshalling or writing fails.
\<close>

theorem changed_flag_lifecycle:
  "\<not> changed NewSite \<and>
   (\<forall>s' tr. LoadSite cfg fs fn = (Inr s', tr) \<longrightarrow> \<not> changed s') \<and>
   (u \<noteq> [] \<and> u \<notin> set (Admins s) \<longrightarrow> changed (AddAdmin s u)) \<and>
   (u \<noteq> [] \<and> u \<in> set (Admins s) \<longrightarrow> changed (RemoveAdmin s u)) \<and>
   changed (MarkAsChanged s) \<and>
   (changed s \<longrightarrow> changed (AddAdmin s u) \<and> changed (RemoveAdmin s u)) \<and>
   (\<forall>e s' tr. Save cfg fs s = (e, s', tr) \<longrightarrow>
      (e = None \<longrightarrow> \<not> changed s' \<and> s' = s\<lparr>changed := False\<rparr>) \<and>
      (e \<noteq> None \<longrightarrow> s' = s) \<and>
      (e = None \<longleftrightarrow> (\<exists>d. Marshal fs s = Inr d \<and> WriteFile fs (FileName cfg s) d = None)))"
proof -
  have save: "\<forall>e s' tr. Save cfg fs s = (e, s', tr) \<longrightarrow>
      (e = None \<longrightarrow> \<not> changed s' \<and> s' = s\<lparr>changed := False\<rparr>) \<and>
      (e \<noteq> None \<longrightarrow> s' = s) \<and>
      (e = None \<longleftrightarrow> (\<exists>d. Marshal fs s = Inr d \<and> WriteFile fs (FileName cfg s) d = None))"
    by (auto simp: Save_def split: sum.splits option.splits)
  have load: "\<forall>s' tr. LoadSite cfg fs fn = (Inr s', tr) \<longrightarrow> \<not> changed s'"
    using LoadSite_unchanged by blast
  have new: "\<not> changed NewSite" by (simp add: NewSite_def)
  have mark: "changed (MarkAsChanged s)" by (simp add: MarkAsChanged_def)
  have add: "u \<noteq> [] \<and> u \<notin> set (Admins s) \<longrightarrow> changed (AddAdmin s u)"
    by (simp add: changed_AddAdmin)
  have rem: "u \<noteq> [] \<and> u \<in> set (Admins s) \<longrightarrow> changed (RemoveAdmin s u)"
    by (simp add: changed_RemoveAdmin)
  have keep: "changed s \<longrightarrow> changed (AddAdmin s u) \<and> changed (RemoveAdmin s u)"
    by (simp add: changed_AddAdmin changed_RemoveAdmin)
  show ?thesis
    by (intro conjI) (rule new load add rem mark keep save)+
qed

theorem changed_flag_lifecycle_witness:
  "(\<exists>s' tr. LoadSite cfg0 fs0 ''chess.yaml'' = (Inr s', tr) \<and> \<not> changed s') \<and>
   changed (AddAdmin site0 ''abc'') \<and> changed (RemoveAdmin site0 ''al'') \<and>
   fst (Save cfg0 fs0 (AddAdmin site0 ''abc'')) = None \<and>
   \<not> changed (fst (snd (Save cfg0 fs0 (AddAdmin site0 ''abc'')))) \<and>
   fst (Save cfg0 fs_readonly (AddAdmin site0 ''abc'')) \<noteq> None \<and>
   changed (fst (snd (Save cfg0 fs_readonly (AddAdmin site0 ''abc''))))"
proof -
  obtain r tr where l: "LoadSite cfg0 fs0 ''chess.yaml'' = (r, tr)" by (cases "LoadSite cfg0 fs0 ''chess.yaml''")
  have "\<exists>s'. r = Inr s'"
    using l by (auto simp: LoadSite_def Let_def fs0_def path_Split_def path_Ext_def last_elem_def)
  then obtain s' where r: "r = Inr s'" by blast
  note t1 = changed_flag_lifecycle[of cfg0 fs0 "''chess.yaml''" "''abc''" site0]
  note t2 = changed_flag_lifecycle[of cfg0 fs0 "''chess.yaml''" "''al''" site0]
  note t3 = changed_flag_lifecycle[of cfg0 fs0 "''chess.yaml''" "''abc''" "AddAdmin site0 ''abc''"]
  note t4 = changed_flag_lifecycle[of cfg0 fs_readonly "''chess.yaml''" "''abc''" "AddAdmin site0 ''abc''"]
  have m: "''abc'' \<notin> set (Admins site0)" "''al'' \<in> set (Admins site0)" by (simp_all add: site0_def)
  have c1: "changed (AddAdmin site0 ''abc'')" using t1 m by simp
  have c2: "changed (RemoveAdmin site0 ''al'')" using t2 m by simp
  obtain e1 s1 tr1 where s1: "Save cfg0 fs0 (AddAdmin site0 ''abc'') = (e1, s1, tr1)"
    by (cases "Save cfg0 fs0 (AddAdmin site0 ''abc'')") auto
  have e1: "e1 = None" using t3 s1 by (simp add: fs0_def)
  with t3 s1 have n1: "\<not> changed s1" by blast
  obtain e2 s2 tr2 where s2: "Save cfg0 fs_readonly (AddAdmin site0 ''abc'') = (e2, s2, tr2)"
    by (cases "Save cfg0 fs_readonly (AddAdmin site0 ''abc'')") auto
  have e2: "e2 \<noteq> None" using t4 s2 by (simp add: fs_readonly_def fs0_def)
  with t4 s2 have "s2 = AddAdmin site0 ''abc''" by blast
  with c1 have n2: "changed s2" by simp
  from l r t1 have "\<not> changed s'" by blast
  with l r c1 c2 s1 e1 n1 s2 e2 n2 show ?thesis by simp
qed

text \<open>
  Claim C10. Both operations sort the slice in place before they search. On the unsorted
  slice \<open>[kim, eve, joe]\<close>, adding the present name \<open>joe\<close> and removing the absent name
  \<open>zed\<close> each reorder the slice and leave the changed flag false. The empty name returns
  before the sort. On any unsorted slice, a call leaves the slice as it was exactly when
  the name is empty.
\<close>

theorem sort_in_place_without_change:
  "\<not> sorted (Admins site2) \<and> \<not> changed site2 \<and>
   ''joe'' \<in> set (Admins site2) \<and>
   Admins (AddAdmin site2 ''joe'') = [''eve'', ''joe'', ''kim''] \<and>
   Admins (AddAdmin site2 ''joe'') \<noteq> Admins site2 \<and> \<not> changed (AddAdmin site2 ''joe'') \<and>
   ''zed'' \<notin> set (Admins site2) \<and>
   Admins (RemoveAdmin site2 ''zed'') = [''eve'', ''joe'', ''kim''] \<and>
   Admins (RemoveAdmin site2 ''zed'') \<noteq> Admins site2 \<and> \<not> changed (RemoveAdmin site2 ''zed'') \<and>
   AddAdmin s [] = s \<and> RemoveAdmin s [] = s \<and>
   (\<not> sorted (Admins s) \<longrightarrow>
      (Admins (AddAdmin s u) = Admins s \<longleftrightarrow> u = []) \<and>
      (Admins (RemoveAdmin s u) = Admins s \<longleftrightarrow> u = []))"
proof -
  have srt: "sort (Admins site2) = [''eve'', ''joe'', ''kim'']" by (simp add: site2_def)
  have mem: "''joe'' \<in> set (Admins site2)" "''zed'' \<notin> set (Admins site2)" by (simp_all add: site2_def)
  have a: "AddAdmin site2 ''joe'' = site2\<lparr>Admins := [''eve'', ''joe'', ''kim'']\<rparr>"
    using AddAdmin_present[of "''joe''" site2] mem srt by simp
  have r: "RemoveAdmin site2 ''zed'' = site2\<lparr>Admins := [''eve'', ''joe'', ''kim'']\<rparr>"
    using RemoveAdmin_absent[of "''zed''" site2] mem srt by simp
  have uns: "\<not> sorted (Admins site2)" "\<not> changed site2" "Admins site2 = [''kim'', ''eve'', ''joe'']"
    by (simp_all add: site2_def)
  have g1: "\<not> sorted (Admins s) \<Longrightarrow> u \<noteq> [] \<Longrightarrow> Admins (AddAdmin s u) \<noteq> Admins s"
    using sorted_Admins_AddAdmin[of u s] by auto
  have g2: "\<not> sorted (Admins s) \<Longrightarrow> u \<noteq> [] \<Longrightarrow> Admins (RemoveAdmin s u) \<noteq> Admins s"
    using sorted_Admins_RemoveAdmin[of u s] by auto
  have g: "\<not> sorted (Admins s) \<longrightarrow>
      (Admins (AddAdmin s u) = Admins s \<longleftrightarrow> u = []) \<and>
      (Admins (RemoveAdmin s u) = Admins s \<longleftrightarrow> u = [])"
    using g1 g2 by (auto simp: AddAdmin_empty RemoveAdmin_empty)
  from a r uns mem g show ?thesis
    by (simp add: AddAdmin_empty RemoveAdmin_empty)
qed

theorem sort_in_place_without_change_witness:
  "\<not> sorted (Admins site1) \<and> Admins (AddAdmin site1 ''al'') \<noteq> Admins site1 \<and>
   Admins (AddAdmin site1 []) = Admins site1"
proof -
  have h: "\<not> sorted (Admins site1)" by (simp add: site1_def)
  from sort_in_place_without_change[of site1 "''al''"] h
  show ?thesis by simp
qed

section \<open>The ledger client\<close>

lemma count_rows_le_one:
  "distinct (map fst t) \<Longrightarrow> length (filter (\<lambda>(rid, rst). rid = i \<and> rst = st) t) \<le> 1"
proof (induction t)
  case Nil
  then show ?case by simp
next
  case (Cons r t)
  obtain rid rst where r: "r = (rid, rst)" by (cases r)
  show ?case
  proof (cases "rid = i")
    case True
    with Cons.prems r have "i \<notin> fst ` set t" by auto
    then have "filter (\<lambda>(rid, rst). rid = i \<and> rst = st) t = []"
      by (force simp: filter_empty_conv)
    with r show ?thesis by simp
  next
    case False
    with Cons r show ?thesis by simp
  qed
qed

lemma count_rows_zero_iff:
  "length (filter (\<lambda>(rid, rst). rid = i \<and> rst = st) t) = 0 \<longleftrightarrow> (i, st) \<notin> set t"
  by (auto simp: filter_empty_conv)

lemma exec_update_no_match:
  "(i, st) \<notin> set t \<Longrightarrow> fst (exec_update q i st t) = t"
  by (auto simp: exec_update_def intro!: map_idI)

lemma exec_update_set:
  "set (fst (exec_update q i st t)) =
     (if (i, st) \<in> set t then insert (i, new_status q) (set t - {(i, st)}) else set t)"
proof -
  let ?f = "\<lambda>(rid, rst). if rid = i \<and> rst = st then (rid, new_status q) else (rid, rst)"
  have f1: "?f (i, st) = (i, new_status q)" by simp
  have f2: "\<And>r. r \<noteq> (i, st) \<Longrightarrow> ?f r = r" by (auto split: if_splits)
  have "?f ` set t = (if (i, st) \<in> set t then insert (i, new_status q) (set t - {(i, st)}) else set t)"
  proof (cases "(i, st) \<in> set t")
    case True
    then have "set t = insert (i, st) (set t - {(i, st)})" by auto
    then have "?f ` set t = insert (?f (i, st)) (?f ` (set t - {(i, st)}))"
      by (metis image_insert)
    moreover have "?f ` (set t - {(i, st)}) = set t - {(i, st)}"
      using f2 by (intro image_cong[where g = "\<lambda>r. r", simplified]) auto
    ultimately show ?thesis using True f1 by simp
  next
    case False
    then have "?f ` set t = set t"
      using f2 by (intro image_cong[where g = "\<lambda>r. r", simplified]) auto
    with False show ?thesis by simp
  qed
  then show ?thesis by (simp add: exec_update_def)
qed

lemma exec_update_ids: "map fst (fst (exec_update q i st t)) = map fst t"
  by (induction t) (auto simp: exec_update_def)

lemma FinishGrant_terminal:
  "RequestStatus a = AccessGranted \<or> RequestStatus a = AccessRevoked \<Longrightarrow>
     FinishGrant sql a db = (Inl (ErrGrantFinished a), db)"
  by (simp add: FinishGrant_def)

lemma FinishGrant_exec:
  assumes "RequestStatus a \<noteq> AccessGranted" "RequestStatus a \<noteq> AccessRevoked"
    and "prepare_stmt sql (grant_query a) db = Inr db1"
    and "Exec_err sql (grant_query a) (AccessId a) (RequestStatus a) = None"
  shows "FinishGrant sql a db =
           (Inr (snd (exec_update (grant_query a) (AccessId a) (RequestStatus a) (WebserverAccess db1)) \<noteq> 0),
            db1\<lparr>WebserverAccess :=
                   fst (exec_update (grant_query a) (AccessId a) (RequestStatus a) (WebserverAccess db1))\<rparr>)"
  using assms by (auto simp: FinishGrant_def split: prod.splits)

lemma prepare_stmt_table: "prepare_stmt sql q db = Inr db1 \<Longrightarrow> WebserverAccess db1 = WebserverAccess db"
  by (auto simp: prepare_stmt_def split: query.splits if_splits option.splits)

lemma FinishGrant_driver_error:
  assumes "RequestStatus a \<noteq> AccessGranted" "RequestStatus a \<noteq> AccessRevoked"
    and "prepare_stmt sql (grant_query a) db = Inl e \<or>
         Exec_err sql (grant_query a) (AccessId a) (RequestStatus a) \<noteq> None"
  shows "\<exists>e' db'. FinishGrant sql a db = (Inl e', db') \<and> WebserverAccess db' = WebserverAccess db"
  using assms by (auto simp: FinishGrant_def prepare_stmt_table split: sum.splits option.splits)

text \<open>
  Claim C4. \<open>FinishGrant\<close> returns an error, and touches nothing, when the grant is
  already \<open>Granted\<close> or \<open>Revoked\<close>. Otherwise, when the driver prepares and executes
  the statement, the table is changed by the update conditional on the grant id and the
  status the grant carries; the identifiers being unique, that update affects no row or
  one row; the result is true exactly when it affected one row, and false without an
  error when it affected none, which is when no row has that id and that status.
\<close>

theorem FinishGrant_conditional_update:
  "(RequestStatus a = AccessGranted \<or> RequestStatus a = AccessRevoked \<longrightarrow>
      FinishGrant sql a db = (Inl (ErrGrantFinished a), db)) \<and>
   (RequestStatus a \<noteq> AccessGranted \<and> RequestStatus a \<noteq> AccessRevoked \<and>
    prepare_stmt sql (grant_query a) db = Inr db1 \<and>
    Exec_err sql (grant_query a) (AccessId a) (RequestStatus a) = None \<and>
    distinct (map fst (WebserverAccess db)) \<longrightarrow>
      (\<exists>t ra. exec_update (grant_query a) (AccessId a) (RequestStatus a) (WebserverAccess db) = (t, ra) \<and>
         FinishGrant sql a db = (Inr (ra = 1), db1\<lparr>WebserverAccess := t\<rparr>) \<and>
         (ra = 0 \<or> ra = 1) \<and>
         (ra = 0 \<longleftrightarrow> (AccessId a, RequestStatus a) \<notin> set (WebserverAccess db)) \<and>
         (ra = 0 \<longrightarrow> t = WebserverAccess db) \<and>
         (ra = 1 \<longrightarrow> set t = insert (AccessId a, new_status (grant_query a))
                                 (set (WebserverAccess db) - {(AccessId a, RequestStatus a)}))))"
proof (intro conjI impI)
  assume "RequestStatus a = AccessGranted \<or> RequestStatus a = AccessRevoked"
  then show "FinishGrant sql a db = (Inl (ErrGrantFinished a), db)"
    by (rule FinishGrant_terminal)
next
  assume h: "RequestStatus a \<noteq> AccessGranted \<and> RequestStatus a \<noteq> AccessRevoked \<and>
    prepare_stmt sql (grant_query a) db = Inr db1 \<and>
    Exec_err sql (grant_query a) (AccessId a) (RequestStatus a) = None \<and>
    distinct (map fst (WebserverAccess db))"
  let ?tb = "WebserverAccess db"
  let ?u = "exec_update (grant_query a) (AccessId a) (RequestStatus a) ?tb"
  have tb: "WebserverAccess db1 = ?tb" using h prepare_stmt_table by blast
  have ra: "snd ?u = length (filter (\<lambda>(rid, rst). rid = AccessId a \<and> rst = RequestStatus a) ?tb)"
    by (simp add: exec_update_def)
  have le: "snd ?u \<le> 1" using h count_rows_le_one ra by metis
  have z: "snd ?u = 0 \<longleftrightarrow> (AccessId a, RequestStatus a) \<notin> set ?tb"
    unfolding ra by (rule count_rows_zero_iff)
  have fg: "FinishGrant sql a db = (Inr (snd ?u \<noteq> 0), db1\<lparr>WebserverAccess := fst ?u\<rparr>)"
    using FinishGrant_exec[of a sql db db1] h tb by simp
  have one: "(snd ?u \<noteq> 0) = (snd ?u = 1)" using le by auto
  have same: "snd ?u = 0 \<longrightarrow> fst ?u = ?tb" using z exec_update_no_match by blast
  have upd: "snd ?u = 1 \<longrightarrow> set (fst ?u) = insert (AccessId a, new_status (grant_query a))
                                 (set ?tb - {(AccessId a, RequestStatus a)})"
    using z exec_update_set[of "grant_query a" "AccessId a" "RequestStatus a" ?tb] by auto
  show "\<exists>t ra. ?u = (t, ra) \<and>
         FinishGrant sql a db = (Inr (ra = 1), db1\<lparr>WebserverAccess := t\<rparr>) \<and>
         (ra = 0 \<or> ra = 1) \<and>
         (ra = 0 \<longleftrightarrow> (AccessId a, RequestStatus a) \<notin> set ?tb) \<and>
         (ra = 0 \<longrightarrow> t = ?tb) \<and>
         (ra = 1 \<longrightarrow> set t = insert (AccessId a, new_status (grant_query a))
                                 (set ?tb - {(AccessId a, RequestStatus a)}))"
  proof (intro exI conjI)
    show "?u = (fst ?u, snd ?u)" by simp
    show "FinishGrant sql a db = (Inr (snd ?u = 1), db1\<lparr>WebserverAccess := fst ?u\<rparr>)"
      using fg one by simp
    show "snd ?u = 0 \<or> snd ?u = 1" using le by auto
    show "snd ?u = 0 \<longleftrightarrow> (AccessId a, RequestStatus a) \<notin> set ?tb" by (rule z)
    show "snd ?u = 0 \<longrightarrow> fst ?u = ?tb" by (rule same)
    show "snd ?u = 1 \<longrightarrow> set (fst ?u) = insert (AccessId a, new_status (grant_query a))
                                 (set ?tb - {(AccessId a, RequestStatus a)})" by (rule upd)
  qed
qed

theorem FinishGrant_conditional_update_witness:
  "FinishGrant sql0 grant_done db0 = (Inl (ErrGrantFinished grant_done), db0) \<and>
   fst (FinishGrant sql0 grant_abc db0) = Inr True \<and>
   WebserverAccess (snd (FinishGrant sql0 grant_abc db0)) = [(1, 2), (2, 3), (3, 2)] \<and>
   fst (FinishGrant sql0 grant_abc (snd (FinishGrant sql0 grant_abc db0))) = Inr False \<and>
   WebserverAccess (snd (FinishGrant sql0 grant_abc (snd (FinishGrant sql0 grant_abc db0))))
     = [(1, 2), (2, 3), (3, 2)]"
proof -
  let ?db1 = "db0\<lparr>grantPendingToGrantedQueryPrepared := True\<rparr>"
  let ?db2 = "?db1\<lparr>WebserverAccess := [(1, 2), (2, 3), (3, 2)]\<rparr>"
  have st: "RequestStatus grant_done = AccessGranted" "RequestStatus grant_abc \<noteq> AccessGranted"
    "RequestStatus grant_abc \<noteq> AccessRevoked" "grant_query grant_abc = grantPendingToGrantedQuery"
    by (simp_all add: grant_done_def grant_abc_def grant_query_def AccessGranted_def
        AccessRevoked_def AccessGrantPending_def)
  have p1: "prepare_stmt sql0 (grant_query grant_abc) db0 = Inr ?db1"
    by (simp add: st prepare_stmt_def sql0_def db0_def)
  have p2: "prepare_stmt sql0 (grant_query grant_abc) ?db2 = Inr ?db2"
    by (simp add: st prepare_stmt_def sql0_def db0_def)
  have x: "Exec_err sql0 (grant_query grant_abc) (AccessId grant_abc) (RequestStatus grant_abc) = None"
    by (simp add: sql0_def)
  have d: "distinct (map fst (WebserverAccess db0))" "distinct (map fst (WebserverAccess ?db2))"
    by (simp_all add: db0_def)
  have u1: "exec_update (grant_query grant_abc) (AccessId grant_abc) (RequestStatus grant_abc)
              (WebserverAccess db0) = ([(1, 2), (2, 3), (3, 2)], 1)"
    unfolding st(4) by (simp add: exec_update_def new_status_def db0_def grant_abc_def)
  have u2: "exec_update (grant_query grant_abc) (AccessId grant_abc) (RequestStatus grant_abc)
              (WebserverAccess ?db2) = ([(1, 2), (2, 3), (3, 2)], 0)"
    unfolding st(4) by (simp add: exec_update_def new_status_def db0_def grant_abc_def)
  have f0: "FinishGrant sql0 grant_done db0 = (Inl (ErrGrantFinished grant_done), db0)"
    using FinishGrant_conditional_update[of grant_done sql0 db0 db0] st by simp
  have f1: "FinishGrant sql0 grant_abc db0 = (Inr True, ?db2)"
    using FinishGrant_conditional_update[of grant_abc sql0 db0 ?db1] st p1 x d u1 by simp
  have f2: "FinishGrant sql0 grant_abc ?db2 = (Inr False, ?db2)"
    using FinishGrant_conditional_update[of grant_abc sql0 ?db2 ?db2] st p2 x d u2 by simp
  from f0 f1 f2 show ?thesis by simp
qed

section \<open>The record store\<close>

subsection \<open>Loading once\<close>

lemma ensure_loaded: "initOnce c \<Longrightarrow> ensureSitesCacheLoaded cfg fs c = (initError c, c, [])"
  by (simp add: ensureSitesCacheLoaded_def)

lemma ensure_result:
  "ensureSitesCacheLoaded cfg fs c = (e, c1, tr) \<Longrightarrow> initOnce c1 \<and> initError c1 = e"
  by (auto simp: ensureSitesCacheLoaded_def split: if_splits prod.splits)

lemma ensure_first:
  "\<not> initOnce c \<Longrightarrow> ensureSitesCacheLoaded cfg fs c = (e, c1, tr) \<Longrightarrow>
     \<exists>c'. initSitesCache cfg fs c = (e, c', tr) \<and> c1 = c'\<lparr>initOnce := True, initError := e\<rparr>"
  by (auto simp: ensureSitesCacheLoaded_def split: prod.splits)

lemma LoadSite_events: "LoadSite cfg fs fn = (r, tr) \<Longrightarrow> ev \<in> set tr \<Longrightarrow> is_read ev"
  by (auto simp: LoadSite_def Let_def split: if_splits sum.splits)

lemma load_item_events: "load_item cfg fs fn = (it, tr) \<Longrightarrow> ev \<in> set tr \<Longrightarrow> is_read ev"
  by (auto simp: load_item_def Let_def split: if_splits sum.splits prod.splits dest: LoadSite_events)

lemma load_item_snd_events: "ev \<in> set (snd (load_item cfg fs fn)) \<Longrightarrow> is_read ev"
  using load_item_events[of cfg fs fn] by (cases "load_item cfg fs fn") auto

lemma initSitesCache_events:
  "initSitesCache cfg fs c = (e, c', tr) \<Longrightarrow> ev \<in> set tr \<Longrightarrow> is_read ev"
  by (auto simp: initSitesCache_def Let_def split: if_splits sum.splits prod.splits
      dest: load_item_snd_events)

lemma ensure_events:
  "ensureSitesCacheLoaded cfg fs c = (e, c1, tr) \<Longrightarrow> ev \<in> set tr \<Longrightarrow> is_read ev \<and> \<not> initOnce c"
  by (auto simp: ensureSitesCacheLoaded_def split: if_splits prod.splits dest: initSitesCache_events)

subsection \<open>The effects of each step of the commit pipeline\<close>

lemma pull_branch_events:
  "pull_branch cfg git b = (e, tr) \<Longrightarrow> ev \<in> set tr \<Longrightarrow> ev = EvPull (cdb_branch cfg)"
  by (auto simp: pull_branch_def split: pull_result.splits)

lemma GetWorktree_events:
  "GetWorktree cfg git = (e, tr) \<Longrightarrow> ev \<in> set tr \<Longrightarrow>
     ev = EvCheckout (cdb_branch cfg) \<or> ev = EvPull (cdb_branch cfg)"
  by (auto simp: GetWorktree_def split: if_splits option.splits sum.splits prod.splits
      dest: pull_branch_events)

lemma GetWorktree_dirty:
  "Status_first git = Inr False \<Longrightarrow> cdb_path cfg \<noteq> [] \<Longrightarrow> PlainOpen_err git = None \<Longrightarrow>
     Worktree_err git = None \<Longrightarrow> GetWorktree cfg git = (Some ErrWorktreeNotClean, [])"
  by (simp add: GetWorktree_def checkWorktreeClean_def)

lemma Save_events:
  "Save cfg fs s = (e, s', tr) \<Longrightarrow> ev \<in> set tr \<Longrightarrow> is_save ev"
  by (auto simp: Save_def split: sum.splits option.splits)

lemma Save_name: "Save cfg fs s = (e, s', tr) \<Longrightarrow> name s' = name s"
  by (auto simp: Save_def split: sum.splits option.splits)

lemma Save_saved_names: "Save cfg fs s = (e, s', tr) \<Longrightarrow> saved_names tr = [name s]"
  by (auto simp: Save_def saved_names_def split: sum.splits option.splits)

lemma saved_names_append: "saved_names (a @ b) = saved_names a @ saved_names b"
  by (simp add: saved_names_def List.map_filter_def)

lemma saved_names_none: "(\<And>ev. ev \<in> set tr \<Longrightarrow> \<not> is_save ev) \<Longrightarrow> saved_names tr = []"
proof (induction tr)
  case Nil
  then show ?case by (simp add: saved_names_def)
next
  case (Cons a tr)
  then have "\<not> is_save a" by simp
  then have "(case a of EvSave n \<Rightarrow> Some n | _ \<Rightarrow> None) = None" by (cases a) simp_all
  moreover have "saved_names tr = []" using Cons by simp
  ultimately show ?case by (simp add: saved_names_def)
qed

lemma save_sites_skip:
  "DryRun opts \<Longrightarrow> \<not> ForceUpdateTree opts \<Longrightarrow>
     save_sites cfg fs opts c ps = (c, map (\<lambda>p. None) ps, [], [])"
  by (induction ps) simp_all

lemma save_sites_events:
  "save_sites cfg fs opts c ps = (c', errs, fl, tr) \<Longrightarrow> ev \<in> set tr \<Longrightarrow>
     is_save ev \<and> (\<not> DryRun opts \<or> ForceUpdateTree opts)"
proof (induction ps arbitrary: c c' errs fl tr)
  case Nil
  then show ?case by simp
next
  case (Cons p ps)
  show ?case
  proof (cases "\<not> DryRun opts \<or> ForceUpdateTree opts")
    case False
    with Cons.prems save_sites_skip[of opts cfg fs c "p # ps"] show ?thesis by simp
  next
    case True
    obtain e s' tr1 where sv: "Save cfg fs (sites c ! p) = (e, s', tr1)"
      by (cases "Save cfg fs (sites c ! p)") auto
    obtain c2 errs2 fl2 tr2 where rest:
      "save_sites cfg fs opts (c\<lparr>sites := (sites c)[p := s']\<rparr>) ps = (c2, errs2, fl2, tr2)"
      by (cases "save_sites cfg fs opts (c\<lparr>sites := (sites c)[p := s']\<rparr>) ps") auto
    from Cons.prems(1) True sv rest have tr: "tr = tr1 @ tr2" by auto
    with Cons.prems(2) have "ev \<in> set tr1 \<or> ev \<in> set tr2" by simp
    then show ?thesis
    proof
      assume "ev \<in> set tr1"
      with sv True show ?thesis by (auto dest: Save_events)
    next
      assume "ev \<in> set tr2"
      with Cons.IH[OF rest] show ?thesis by simp
    qed
  qed
qed

lemma map_name_update:
  "name s' = name (xs ! p) \<Longrightarrow> map name (xs[p := s']) = map name xs"
proof (cases "p < length xs")
  case True
  assume n: "name s' = name (xs ! p)"
  have "(map name xs)[p := map name xs ! p] = map name xs" by (rule list_update_id)
  with True n show ?thesis by (simp add: map_update)
next
  case False
  then have "xs[p := s'] = xs" by (simp add: list_update_beyond)
  then show ?thesis by simp
qed

lemma save_sites_frame:
  "save_sites cfg fs opts c ps = (c', errs, fl, tr) \<Longrightarrow>
     byId c' = byId c \<and> byName c' = byName c \<and> slice c' = slice c \<and>
     initOnce c' = initOnce c \<and> initError c' = initError c \<and>
     map name (sites c') = map name (sites c)"
proof (induction ps arbitrary: c c' errs fl tr)
  case Nil
  then show ?case by simp
next
  case (Cons p ps)
  show ?case
  proof (cases "\<not> DryRun opts \<or> ForceUpdateTree opts")
    case False
    with Cons.prems save_sites_skip[of opts cfg fs c "p # ps"] show ?thesis by simp
  next
    case True
    obtain e s' tr1 where sv: "Save cfg fs (sites c ! p) = (e, s', tr1)"
      by (cases "Save cfg fs (sites c ! p)") auto
    let ?c1 = "c\<lparr>sites := (sites c)[p := s']\<rparr>"
    obtain c2 errs2 fl2 tr2 where rest: "save_sites cfg fs opts ?c1 ps = (c2, errs2, fl2, tr2)"
      by (cases "save_sites cfg fs opts ?c1 ps") auto
    from Cons.prems True sv rest have c': "c' = c2" by auto
    have "map name ((sites c)[p := s']) = map name (sites c)"
      using Save_name[OF sv] by (rule map_name_update)
    with Cons.IH[OF rest] c' show ?thesis by simp
  qed
qed

lemma save_sites_saved_names:
  "\<not> DryRun opts \<or> ForceUpdateTree opts \<Longrightarrow> save_sites cfg fs opts c ps = (c', errs, fl, tr) \<Longrightarrow>
     \<forall>p\<in>set ps. p < length (sites c) \<Longrightarrow>
     saved_names tr = map (\<lambda>p. name (sites c ! p)) ps"
proof (induction ps arbitrary: c c' errs fl tr)
  case Nil
  then show ?case by (simp add: saved_names_def)
next
  case (Cons p ps)
  obtain e s' tr1 where sv: "Save cfg fs (sites c ! p) = (e, s', tr1)"
    by (cases "Save cfg fs (sites c ! p)") auto
  let ?c1 = "c\<lparr>sites := (sites c)[p := s']\<rparr>"
  obtain c2 errs2 fl2 tr2 where rest: "save_sites cfg fs opts ?c1 ps = (c2, errs2, fl2, tr2)"
    by (cases "save_sites cfg fs opts ?c1 ps") auto
  from Cons.prems(1,2) sv rest have tr: "tr = tr1 @ tr2" by auto
  have nm: "map name (sites ?c1) = map name (sites c)"
    using Save_name[OF sv] by (simp add: map_name_update)
  have len: "\<forall>q\<in>set ps. q < length (sites ?c1)" using Cons.prems(3) by simp
  have "saved_names tr2 = map (\<lambda>q. name (sites ?c1 ! q)) ps"
    using Cons.IH[OF Cons.prems(1) rest len] .
  also have "\<dots> = map (\<lambda>q. name (sites c ! q)) ps"
  proof (rule map_cong[OF refl])
    fix q assume "q \<in> set ps"
    with Cons.prems(3) have q: "q < length (sites c)" by simp
    then have "name (sites ?c1 ! q) = map name (sites ?c1) ! q" by simp
    also have "\<dots> = map name (sites c) ! q" using nm by simp
    also have "\<dots> = name (sites c ! q)" using q by simp
    finally show "name (sites ?c1 ! q) = name (sites c ! q)" .
  qed
  finally have "saved_names tr2 = map (\<lambda>q. name (sites c ! q)) ps" .
  with tr Save_saved_names[OF sv] show ?case by (simp add: saved_names_append)
qed

lemma stage_files_events:
  "stage_files git fns = (e, tr) \<Longrightarrow> ev \<in> set tr \<Longrightarrow> is_stage ev"
  by (induction fns arbitrary: e tr) (auto split: option.splits prod.splits)

lemma push_step_events:
  "push_step cfg git opts = (e, tr) \<Longrightarrow> ev \<in> set tr \<Longrightarrow>
     ev = EvPush \<and> \<not> DryRun opts \<and> \<not> NoPush opts"
  by (auto simp: push_step_def split: if_splits option.splits)

lemma commit_step_events:
  "commit_step cfg git opts n = (e, tr) \<Longrightarrow> ev \<in> set tr \<Longrightarrow>
     \<not> DryRun opts \<and> (ev = EvCommit (commit_message cfg opts n) \<or> (ev = EvPush \<and> \<not> NoPush opts))"
  by (auto simp: commit_step_def Let_def split: if_splits option.splits prod.splits
      dest: push_step_events)


subsection \<open>The effects of the whole pipeline\<close>

lemma read_not_save: "is_read ev \<Longrightarrow> \<not> is_save ev"
  by (cases ev) simp_all

lemma stage_not_save: "is_stage ev \<Longrightarrow> \<not> is_save ev"
  by (cases ev) simp_all

lemma sites_to_save_valid: "p \<in> set (sites_to_save c ids) \<Longrightarrow> p < length (sites c)"
  by (auto simp: sites_to_save_def List.map_filter_def deref_def split: if_splits option.splits)

lemma save_and_stage_events:
  assumes "save_and_stage cfg fs git c opts = (e, c2, n, tr)" "ev \<in> set tr"
  shows "(is_read ev \<and> \<not> initOnce c) \<or> ev = EvCheckout (cdb_branch cfg) \<or> ev = EvPull (cdb_branch cfg)
         \<or> (is_save ev \<and> (\<not> DryRun opts \<or> ForceUpdateTree opts))
         \<or> (is_stage ev \<and> \<not> DryRun opts)"
proof -
  obtain e0 c1 tr0 where en: "ensureSitesCacheLoaded cfg fs c = (e0, c1, tr0)"
    by (cases "ensureSitesCacheLoaded cfg fs c") auto
  obtain e1 tr1 where wt: "GetWorktree cfg git = (e1, tr1)" by (cases "GetWorktree cfg git")
  let ?targets = "sites_to_save c1 (site_ids c1 opts)"
  obtain c2' errs fl tr2 where sv: "save_sites cfg fs opts c1 ?targets = (c2', errs, fl, tr2)"
    by (cases "save_sites cfg fs opts c1 ?targets") auto
  obtain e3 tr3 where st: "(if \<not> DryRun opts then stage_files git fl else (None, [])) = (e3, tr3)"
    by (cases "if \<not> DryRun opts then stage_files git fl else (None, [])")
  have sub: "set tr \<subseteq> set tr0 \<union> set tr1 \<union> set tr2 \<union> set tr3"
    using assms(1) en wt sv st
    by (auto simp: save_and_stage_def Let_def split: option.splits prod.splits if_splits)
  have t3: "ev \<in> set tr3 \<Longrightarrow> is_stage ev \<and> \<not> DryRun opts"
    using st stage_files_events[of git fl e3 tr3 ev] by (auto split: if_splits)
  from sub assms(2) have "ev \<in> set tr0 \<or> ev \<in> set tr1 \<or> ev \<in> set tr2 \<or> ev \<in> set tr3" by auto
  then show ?thesis
    using ensure_events[OF en] GetWorktree_events[OF wt] save_sites_events[OF sv] t3 by blast
qed

lemma save_and_stage_frame:
  assumes "save_and_stage cfg fs git c opts = (e, c2, n, tr)"
    and "ensureSitesCacheLoaded cfg fs c = (e0, c1, tr0)"
  shows "byId c2 = byId c1 \<and> byName c2 = byName c1 \<and> slice c2 = slice c1 \<and>
         initOnce c2 \<and> initError c2 = e0 \<and> map name (sites c2) = map name (sites c1)"
proof -
  let ?targets = "sites_to_save c1 (site_ids c1 opts)"
  obtain c2' errs fl tr2 where sv: "save_sites cfg fs opts c1 ?targets = (c2', errs, fl, tr2)"
    by (cases "save_sites cfg fs opts c1 ?targets") auto
  have "c2 = c1 \<or> c2 = c2'"
    using assms sv
    by (auto simp: save_and_stage_def Let_def split: option.splits prod.splits if_splits)
  with save_sites_frame[OF sv] ensure_result[OF assms(2)] show ?thesis by auto
qed

lemma save_and_stage_init_error:
  "ensureSitesCacheLoaded cfg fs c = (Some x, c1, tr0) \<Longrightarrow>
     save_and_stage cfg fs git c opts = (Some x, c1, 0, tr0)"
  by (simp add: save_and_stage_def)

lemma save_and_stage_count:
  assumes "save_and_stage cfg fs git c opts = (None, c2, n, tr)"
  shows "n = length (sites_to_save (fst (snd (ensureSitesCacheLoaded cfg fs c)))
                      (site_ids (fst (snd (ensureSitesCacheLoaded cfg fs c))) opts))"
  using assms
  by (auto simp: save_and_stage_def Let_def split: option.splits prod.splits if_splits)

lemma save_and_stage_saved_names:
  assumes "save_and_stage cfg fs git c opts = (e, c2, n, tr)"
    and "ensureSitesCacheLoaded cfg fs c = (e0, c1, tr0)"
  shows "saved_names tr =
           (if e0 = None \<and> fst (GetWorktree cfg git) = None \<and> (\<not> DryRun opts \<or> ForceUpdateTree opts)
            then map (\<lambda>p. name (sites c1 ! p)) (sites_to_save c1 (site_ids c1 opts)) else [])"
proof -
  obtain e1 tr1 where wt: "GetWorktree cfg git = (e1, tr1)" by (cases "GetWorktree cfg git")
  let ?targets = "sites_to_save c1 (site_ids c1 opts)"
  obtain c2' errs fl tr2 where sv: "save_sites cfg fs opts c1 ?targets = (c2', errs, fl, tr2)"
    by (cases "save_sites cfg fs opts c1 ?targets") auto
  obtain e3 tr3 where st: "(if \<not> DryRun opts then stage_files git fl else (None, [])) = (e3, tr3)"
    by (cases "if \<not> DryRun opts then stage_files git fl else (None, [])")
  have n0: "saved_names tr0 = []"
    using ensure_events[OF assms(2)] by (intro saved_names_none) (auto dest: read_not_save)
  have n1: "saved_names tr1 = []"
  proof (rule saved_names_none)
    fix ev assume "ev \<in> set tr1"
    from GetWorktree_events[OF wt this] show "\<not> is_save ev" by auto
  qed
  have n3: "saved_names tr3 = []"
  proof (rule saved_names_none)
    fix ev assume "ev \<in> set tr3"
    then have "is_stage ev" using st stage_files_events[of git fl e3 tr3 ev] by (auto split: if_splits)
    then show "\<not> is_save ev" by (rule stage_not_save)
  qed
  have n2: "saved_names tr2 =
      (if \<not> DryRun opts \<or> ForceUpdateTree opts then map (\<lambda>p. name (sites c1 ! p)) ?targets else [])"
  proof (cases "\<not> DryRun opts \<or> ForceUpdateTree opts")
    case True
    have "\<forall>p\<in>set ?targets. p < length (sites c1)" using sites_to_save_valid by blast
    from save_sites_saved_names[OF True sv this] True show ?thesis by simp
  next
    case False
    with sv save_sites_skip[of opts cfg fs c1 ?targets] have "tr2 = []" by simp
    with False show ?thesis by (simp add: saved_names_def)
  qed
  show ?thesis
  proof (cases e0)
    case (Some x)
    with assms have "tr = tr0" by (simp add: save_and_stage_def)
    with n0 Some show ?thesis by simp
  next
    case None
    note e0 = None
    show ?thesis
    proof (cases e1)
      case (Some y)
      with assms e0 wt have "tr = tr0 @ tr1" by (simp add: save_and_stage_def)
      with n0 n1 Some wt show ?thesis by (simp add: saved_names_append)
    next
      case None
      have "tr = tr0 @ tr1 @ tr2 \<or> tr = tr0 @ tr1 @ tr2 @ tr3"
        using assms e0 wt None sv st
        by (auto simp: save_and_stage_def Let_def split: option.splits prod.splits if_splits)
      with n0 n1 n2 n3 None wt e0 show ?thesis by (auto simp: saved_names_append)
    qed
  qed
qed

lemma CommitSites_events:
  assumes "CommitSites cfg fs git c opts = (e, c', tr)" "ev \<in> set tr"
  shows "(is_read ev \<and> \<not> initOnce c) \<or> ev = EvCheckout (cdb_branch cfg) \<or> ev = EvPull (cdb_branch cfg)
         \<or> (is_save ev \<and> (\<not> DryRun opts \<or> ForceUpdateTree opts))
         \<or> (is_stage ev \<and> \<not> DryRun opts)
         \<or> (\<not> DryRun opts \<and> Status_second git \<noteq> Inr True \<and>
             fst (save_and_stage cfg fs git c opts) = None \<and>
             (ev = EvCommit (commit_message cfg opts (fst (snd (snd (save_and_stage cfg fs git c opts)))))
              \<or> (ev = EvPush \<and> \<not> NoPush opts)))"
proof -
  obtain e1 c2 n tr1 where ss: "save_and_stage cfg fs git c opts = (e1, c2, n, tr1)"
    by (cases "save_and_stage cfg fs git c opts") auto
  obtain e4 tr4 where cs: "commit_step cfg git opts n = (e4, tr4)"
    by (cases "commit_step cfg git opts n")
  have "ev \<in> set tr1 \<or> (ev \<in> set tr4 \<and> e1 = None \<and> Status_second git \<noteq> Inr True)"
    using assms ss cs
    by (auto simp: CommitSites_def checkWorktreeClean_def split: option.splits sum.splits if_splits)
  then show ?thesis
  proof
    assume "ev \<in> set tr1"
    from save_and_stage_events[OF ss this] show ?thesis by blast
  next
    assume a: "ev \<in> set tr4 \<and> e1 = None \<and> Status_second git \<noteq> Inr True"
    with commit_step_events[OF cs, of ev] ss show ?thesis by simp
  qed
qed

lemma CommitSites_frame:
  assumes "CommitSites cfg fs git c opts = (e, c', tr)"
    and "ensureSitesCacheLoaded cfg fs c = (e0, c1, tr0)"
  shows "byId c' = byId c1 \<and> byName c' = byName c1 \<and> slice c' = slice c1 \<and>
         initOnce c' \<and> initError c' = e0 \<and> map name (sites c') = map name (sites c1)"
proof -
  obtain e1 c2 n tr1 where ss: "save_and_stage cfg fs git c opts = (e1, c2, n, tr1)"
    by (cases "save_and_stage cfg fs git c opts") auto
  have "c' = c2"
    using assms(1) ss by (auto simp: CommitSites_def split: option.splits prod.splits)
  with save_and_stage_frame[OF ss assms(2)] show ?thesis by simp
qed

lemma CommitSites_init_error:
  "ensureSitesCacheLoaded cfg fs c = (Some x, c1, tr0) \<Longrightarrow>
     CommitSites cfg fs git c opts = (Some x, c1, tr0)"
  by (simp add: CommitSites_def save_and_stage_init_error)

lemma CommitSites_saved_names:
  assumes "CommitSites cfg fs git c opts = (e, c', tr)" "DryRun opts"
    and "ensureSitesCacheLoaded cfg fs c = (e0, c1, tr0)"
  shows "saved_names tr =
           (if e0 = None \<and> fst (GetWorktree cfg git) = None \<and> ForceUpdateTree opts
            then map (\<lambda>p. name (sites c1 ! p)) (sites_to_save c1 (site_ids c1 opts)) else [])"
proof -
  obtain e1 c2 n tr1 where ss: "save_and_stage cfg fs git c opts = (e1, c2, n, tr1)"
    by (cases "save_and_stage cfg fs git c opts") auto
  have "commit_step cfg git opts n = (None, [])"
    using assms(2) by (simp add: commit_step_def push_step_def)
  then have "tr = tr1"
    using assms(1) ss by (auto simp: CommitSites_def split: option.splits prod.splits)
  with save_and_stage_saved_names[OF ss assms(3)] assms(2) show ?thesis by simp
qed

subsection \<open>Dry runs\<close>

lemma filter_empty_by_events: "(\<And>ev. ev \<in> set tr \<Longrightarrow> \<not> P ev) \<Longrightarrow> filter P tr = []"
  by (simp add: filter_empty_conv)

lemma CommitSites_dry_state:
  assumes "CommitSites cfg fs git c opts = (e, c', tr)" "DryRun opts" "\<not> ForceUpdateTree opts"
  shows "c' = fst (snd (ensureSitesCacheLoaded cfg fs c))"
proof -
  obtain e0 c1 tr0 where en: "ensureSitesCacheLoaded cfg fs c = (e0, c1, tr0)"
    by (cases "ensureSitesCacheLoaded cfg fs c") auto
  have "save_sites cfg fs opts c1 (sites_to_save c1 (site_ids c1 opts))
          = (c1, map (\<lambda>p. None) (sites_to_save c1 (site_ids c1 opts)), [], [])"
    using assms(2,3) by (rule save_sites_skip)
  then have "fst (snd (save_and_stage cfg fs git c opts)) = c1"
    using en by (auto simp: save_and_stage_def Let_def split: option.splits prod.splits)
  moreover have "c' = fst (snd (save_and_stage cfg fs git c opts))"
    using assms(1) by (auto simp: CommitSites_def split: option.splits prod.splits)
  ultimately show ?thesis using en by simp
qed

text \<open>
  Claim C2. With \<open>DryRun\<close> set, \<open>CommitSites\<close> stages no file, creates no commit and
  pushes nothing, whatever \<open>NoPush\<close> and \<open>ForceUpdateTree\<close> are. Without
  \<open>ForceUpdateTree\<close> it calls \<open>Save\<close> on no site and leaves every record as it was;
  with \<open>ForceUpdateTree\<close> it calls \<open>Save\<close> on each site it processes (once the store is
  loaded and the working tree acquired: the sites in the set that exist and are marked as
  changed).
\<close>

theorem dry_run_effects:
  "DryRun opts \<Longrightarrow> CommitSites cfg fs git c opts = (e, c', tr) \<Longrightarrow>
     filter is_stage tr = [] \<and> filter is_commit tr = [] \<and> filter is_push tr = [] \<and>
     (\<not> ForceUpdateTree opts \<longrightarrow>
        filter is_save tr = [] \<and> c' = fst (snd (ensureSitesCacheLoaded cfg fs c))) \<and>
     saved_names tr =
       (if ForceUpdateTree opts \<and> fst (ensureSitesCacheLoaded cfg fs c) = None
           \<and> fst (GetWorktree cfg git) = None
        then map (\<lambda>p. name (sites (fst (snd (ensureSitesCacheLoaded cfg fs c))) ! p))
               (sites_to_save (fst (snd (ensureSitesCacheLoaded cfg fs c)))
                  (site_ids (fst (snd (ensureSitesCacheLoaded cfg fs c))) opts))
        else [])"
proof -
  assume dry: "DryRun opts" and run: "CommitSites cfg fs git c opts = (e, c', tr)"
  note ev = CommitSites_events[OF run]
  have stage: "filter is_stage tr = []"
  proof (rule filter_empty_by_events)
    fix x assume "x \<in> set tr"
    from ev[OF this] dry show "\<not> is_stage x" by (cases x) auto
  qed
  have commit: "filter is_commit tr = []"
  proof (rule filter_empty_by_events)
    fix x assume "x \<in> set tr"
    from ev[OF this] dry show "\<not> is_commit x" by (cases x) auto
  qed
  have push: "filter is_push tr = []"
  proof (rule filter_empty_by_events)
    fix x assume "x \<in> set tr"
    from ev[OF this] dry show "\<not> is_push x" by (cases x) auto
  qed
  have save: "\<not> ForceUpdateTree opts \<Longrightarrow> filter is_save tr = []"
  proof (rule filter_empty_by_events)
    fix x assume nf: "\<not> ForceUpdateTree opts" and "x \<in> set tr"
    from ev[OF this(2)] dry nf show "\<not> is_save x" by (cases x) auto
  qed
  obtain e0 c1 tr0 where en: "ensureSitesCacheLoaded cfg fs c = (e0, c1, tr0)"
    by (cases "ensureSitesCacheLoaded cfg fs c") auto
  from CommitSites_saved_names[OF run dry en] en
  have names: "saved_names tr =
       (if ForceUpdateTree opts \<and> fst (ensureSitesCacheLoaded cfg fs c) = None
           \<and> fst (GetWorktree cfg git) = None
        then map (\<lambda>p. name (sites (fst (snd (ensureSitesCacheLoaded cfg fs c))) ! p))
               (sites_to_save (fst (snd (ensureSitesCacheLoaded cfg fs c)))
                  (site_ids (fst (snd (ensureSitesCacheLoaded cfg fs c))) opts))
        else [])" by auto
  from stage commit push save names CommitSites_dry_state[OF run dry] show ?thesis by blast
qed

theorem dry_run_effects_witness:
  "DryRun opts_force \<and> DryRun opts_dry \<and>
   snd (snd (CommitSites cfg0 fs0 git0 cache_changed opts_force))
     = [EvPull ''master'', EvSave ''chess'', EvWriteFile ''/srv/icu-cdb/sites/chess.yaml''] \<and>
   saved_names (snd (snd (CommitSites cfg0 fs0 git0 cache_changed opts_force))) = [''chess''] \<and>
   filter is_stage (snd (snd (CommitSites cfg0 fs0 git0 cache_changed opts_force))) = [] \<and>
   snd (snd (CommitSites cfg0 fs0 git0 cache_changed opts_dry)) = [EvPull ''master''] \<and>
   filter is_save (snd (snd (CommitSites cfg0 fs0 git0 cache_changed opts_dry))) = [] \<and>
   fst (snd (CommitSites cfg0 fs0 git0 cache_changed opts_dry)) = cache_changed"
proof -
  have d: "DryRun opts_force" "DryRun opts_dry" "\<not> ForceUpdateTree opts_dry"
    by (simp_all add: opts_force_def opts_dry_def opts_sync_def)
  have en: "ensureSitesCacheLoaded cfg0 fs0 cache_changed = (None, cache_changed, [])"
    by (simp add: ensureSitesCacheLoaded_def cache_changed_def)
  have t1: "snd (snd (CommitSites cfg0 fs0 git0 cache_changed opts_force))
     = [EvPull ''master'', EvSave ''chess'', EvWriteFile ''/srv/icu-cdb/sites/chess.yaml'']"
    by code_simp
  have t2: "snd (snd (CommitSites cfg0 fs0 git0 cache_changed opts_dry)) = [EvPull ''master'']"
    by code_simp
  have n1: "saved_names (snd (snd (CommitSites cfg0 fs0 git0 cache_changed opts_force))) = [''chess'']"
    unfolding t1 by (simp add: saved_names_def)
  note a = dry_run_effects[OF d(1), of cfg0 fs0 git0 cache_changed
      "fst (CommitSites cfg0 fs0 git0 cache_changed opts_force)"
      "fst (snd (CommitSites cfg0 fs0 git0 cache_changed opts_force))"
      "snd (snd (CommitSites cfg0 fs0 git0 cache_changed opts_force))"]
  note b = dry_run_effects[OF d(2), of cfg0 fs0 git0 cache_changed
      "fst (CommitSites cfg0 fs0 git0 cache_changed opts_dry)"
      "fst (snd (CommitSites cfg0 fs0 git0 cache_changed opts_dry))"
      "snd (snd (CommitSites cfg0 fs0 git0 cache_changed opts_dry))"]
  from a have a': "filter is_stage (snd (snd (CommitSites cfg0 fs0 git0 cache_changed opts_force))) = []"
    by simp
  from b d(3) en have b': "filter is_save (snd (snd (CommitSites cfg0 fs0 git0 cache_changed opts_dry))) = []"
    "fst (snd (CommitSites cfg0 fs0 git0 cache_changed opts_dry)) = cache_changed"
    by simp_all
  from d t1 t2 n1 a' b' show ?thesis by simp
qed

subsection \<open>A clean tree after staging\<close>

text \<open>
  Claim C7. When the working tree is clean after the staging step, \<open>CommitSites\<close> creates
  no commit and pushes nothing: it ends where its first half ended, and returns nil
  unless one of the earlier steps had already failed.
\<close>

theorem clean_tree_skips_commit:
  "Status_second git = Inr True \<Longrightarrow> CommitSites cfg fs git c opts = (e, c', tr) \<Longrightarrow>
     filter is_commit tr = [] \<and> filter is_push tr = [] \<and>
     save_and_stage cfg fs git c opts = (e, c', fst (snd (snd (save_and_stage cfg fs git c opts))), tr) \<and>
     (fst (save_and_stage cfg fs git c opts) = None \<longrightarrow> e = None)"
proof -
  assume clean: "Status_second git = Inr True" and run: "CommitSites cfg fs git c opts = (e, c', tr)"
  note ev = CommitSites_events[OF run]
  have commit: "filter is_commit tr = []"
  proof (rule filter_empty_by_events)
    fix x assume "x \<in> set tr"
    from ev[OF this] clean show "\<not> is_commit x" by (cases x) auto
  qed
  have push: "filter is_push tr = []"
  proof (rule filter_empty_by_events)
    fix x assume "x \<in> set tr"
    from ev[OF this] clean show "\<not> is_push x" by (cases x) auto
  qed
  obtain e1 c2 n tr1 where ss: "save_and_stage cfg fs git c opts = (e1, c2, n, tr1)"
    by (cases "save_and_stage cfg fs git c opts") auto
  have "(e, c', tr) = (e1, c2, tr1)"
    using run ss clean by (auto simp: CommitSites_def checkWorktreeClean_def split: option.splits)
  with ss commit push show ?thesis by simp
qed

theorem clean_tree_skips_commit_witness:
  "Status_second git_clean = Inr True \<and>
   CommitSites cfg0 fs0 git_clean cache_changed opts_sync
     = (None, cache_changed\<lparr>sites := [\<lparr>Id = 42, Admins = [''abc'', ''al'', ''xyz''], name = ''chess'', changed = False\<rparr>]\<rparr>,
        [EvPull ''master'', EvSave ''chess'', EvWriteFile ''/srv/icu-cdb/sites/chess.yaml'',
         EvStage ''sites/chess.yaml'']) \<and>
   filter is_commit (snd (snd (CommitSites cfg0 fs0 git_clean cache_changed opts_sync))) = [] \<and>
   filter is_push (snd (snd (CommitSites cfg0 fs0 git_clean cache_changed opts_sync))) = []"
proof -
  have h: "Status_second git_clean = Inr True" by (simp add: git_clean_def)
  have r: "CommitSites cfg0 fs0 git_clean cache_changed opts_sync
     = (None, cache_changed\<lparr>sites := [\<lparr>Id = 42, Admins = [''abc'', ''al'', ''xyz''], name = ''chess'', changed = False\<rparr>]\<rparr>,
        [EvPull ''master'', EvSave ''chess'', EvWriteFile ''/srv/icu-cdb/sites/chess.yaml'',
         EvStage ''sites/chess.yaml''])"
    by code_simp
  from clean_tree_skips_commit[OF h r] h r show ?thesis by simp
qed

subsection \<open>The commit message\<close>

lemma commit_message_unfolded:
  "commit_message cfg opts n =
     spec_commit_message
       (''sites: '' @ (if Message opts = [] then ''Unspecified changes'' else Message opts)) n
       (''pugo'' @ (if Cmd opts = [] then [] else '' '' @ Cmd opts))
       (if newerpol_name cfg = [] then newerpol_database cfg else newerpol_name cfg)"
  by (simp add: commit_message_def spec_commit_message_def Let_def)

text \<open>
  Claim C6, as amended. The message of every commit that \<open>CommitSites\<close> creates is
  \<open>sites: <summary>. Sites changed: <count> (cmd=pugo <origin>, src=<ledger-name>)\<close>:
  the format of the specification with \<open>sites: \<close> before the summary and \<open>pugo\<close> before
  the command name. The summary is the caller's message, or \<open>Unspecified changes\<close> when
  that is empty; the origin is left out, with its space, when the command name is empty;
  the ledger name is \<open>newerpol.name\<close>, or \<open>newerpol.database\<close> when that is empty; the
  count is the number of sites in the set that exist and were marked as changed.
\<close>

theorem commit_message_format:
  "CommitSites cfg fs git c opts = (e, c', tr) \<Longrightarrow> EvCommit m \<in> set tr \<Longrightarrow>
     m = spec_commit_message
           (''sites: '' @ (if Message opts = [] then ''Unspecified changes'' else Message opts))
           (length (sites_to_save (fst (snd (ensureSitesCacheLoaded cfg fs c)))
                      (site_ids (fst (snd (ensureSitesCacheLoaded cfg fs c))) opts)))
           (''pugo'' @ (if Cmd opts = [] then [] else '' '' @ Cmd opts))
           (if newerpol_name cfg = [] then newerpol_database cfg else newerpol_name cfg)
     \<and> \<not> DryRun opts"
proof -
  assume run: "CommitSites cfg fs git c opts = (e, c', tr)" and m: "EvCommit m \<in> set tr"
  obtain e1 c2 n tr1 where ss: "save_and_stage cfg fs git c opts = (e1, c2, n, tr1)"
    by (cases "save_and_stage cfg fs git c opts") auto
  from CommitSites_events[OF run m] ss
  have c: "\<not> DryRun opts" "e1 = None" "m = commit_message cfg opts n" by auto
  from ss c(2) have "n = length (sites_to_save (fst (snd (ensureSitesCacheLoaded cfg fs c)))
                      (site_ids (fst (snd (ensureSitesCacheLoaded cfg fs c))) opts))"
    using save_and_stage_count by blast
  with c show ?thesis by (simp add: commit_message_unfolded)
qed

theorem commit_message_format_witness:
  "EvCommit ''sites: Update admins. Sites changed: 1 (cmd=pugo sync, src=newerpol)''
     \<in> set (snd (snd (CommitSites cfg0 fs0 git0 cache_changed opts_sync))) \<and>
   ''sites: Update admins. Sites changed: 1 (cmd=pugo sync, src=newerpol)''
     = spec_commit_message ''sites: Update admins'' 1 ''pugo sync'' ''newerpol''"
proof -
  have r: "snd (snd (CommitSites cfg0 fs0 git0 cache_changed opts_sync)) =
     [EvPull ''master'', EvSave ''chess'', EvWriteFile ''/srv/icu-cdb/sites/chess.yaml'',
      EvStage ''sites/chess.yaml'',
      EvCommit ''sites: Update admins. Sites changed: 1 (cmd=pugo sync, src=newerpol)'', EvPush]"
    by code_simp
  then have m: "EvCommit ''sites: Update admins. Sites changed: 1 (cmd=pugo sync, src=newerpol)''
     \<in> set (snd (snd (CommitSites cfg0 fs0 git0 cache_changed opts_sync)))" by simp
  have en: "ensureSitesCacheLoaded cfg0 fs0 cache_changed = (None, cache_changed, [])"
    by (simp add: ensureSitesCacheLoaded_def cache_changed_def)
  have n: "length (sites_to_save cache_changed (site_ids cache_changed opts_sync)) = 1"
    by code_simp
  have o: "Message opts_sync = ''Update admins''" "Cmd opts_sync = ''sync''" "newerpol_name cfg0 = ''newerpol''"
    by (simp_all add: opts_sync_def cfg0_def)
  from commit_message_format[OF _ m, of cfg0 fs0 git0 cache_changed opts_sync
      "fst (CommitSites cfg0 fs0 git0 cache_changed opts_sync)"
      "fst (snd (CommitSites cfg0 fs0 git0 cache_changed opts_sync))"]
  have "''sites: Update admins. Sites changed: 1 (cmd=pugo sync, src=newerpol)''
     = spec_commit_message ''sites: Update admins'' 1 ''pugo sync'' ''newerpol''"
    by (simp add: en n o)
  with m show ?thesis by simp
qed

theorem spec_format_counterexample:
  "EvCommit ''sites: Update admins. Sites changed: 1 (cmd=pugo sync, src=newerpol)''
     \<in> set (snd (snd (CommitSites cfg0 fs0 git0 cache_changed opts_sync))) \<and>
   Message opts_sync = ''Update admins'' \<and> Cmd opts_sync = ''sync'' \<and>
   newerpol_name cfg0 = ''newerpol'' \<and>
   spec_commit_message ''Update admins'' 1 ''sync'' ''newerpol''
     = ''Update admins. Sites changed: 1 (cmd=sync, src=newerpol)'' \<and>
   ''sites: Update admins. Sites changed: 1 (cmd=pugo sync, src=newerpol)''
     \<noteq> spec_commit_message ''Update admins'' 1 ''sync'' ''newerpol''"
proof -
  have r: "snd (snd (CommitSites cfg0 fs0 git0 cache_changed opts_sync)) =
     [EvPull ''master'', EvSave ''chess'', EvWriteFile ''/srv/icu-cdb/sites/chess.yaml'',
      EvStage ''sites/chess.yaml'',
      EvCommit ''sites: Update admins. Sites changed: 1 (cmd=pugo sync, src=newerpol)'', EvPush]"
    by code_simp
  have s: "spec_commit_message ''Update admins'' 1 ''sync'' ''newerpol''
     = ''Update admins. Sites changed: 1 (cmd=sync, src=newerpol)''"
    by code_simp
  show ?thesis unfolding r s by (simp add: opts_sync_def cfg0_def)
qed

subsection \<open>Initialisation happens once\<close>

lemma accessors_loaded:
  assumes "initOnce c"
  shows "GetSiteById cfg fs c i =
           ((case initError c of Some x \<Rightarrow> Inl x | None \<Rightarrow> Inr (map_of (byId c) i)), c, [])"
    and "GetSiteByName cfg fs c n =
           ((case initError c of Some x \<Rightarrow> Inl x | None \<Rightarrow> Inr (map_of (byName c) n)), c, [])"
    and "GetAllSites cfg fs c =
           ((case initError c of Some x \<Rightarrow> Inl x | None \<Rightarrow> Inr (slice c)), c, [])"
  using assms
  by (simp_all add: GetSiteById_def GetSiteByName_def GetAllSites_def ensure_loaded
      split: option.splits)

lemma CommitSites_loaded:
  assumes "initOnce c" "CommitSites cfg fs git c opts = (e2, c2, tr2)"
  shows "filter is_read tr2 = [] \<and> initOnce c2 \<and> initError c2 = initError c \<and>
         byId c2 = byId c \<and> byName c2 = byName c \<and> slice c2 = slice c \<and>
         (initError c \<noteq> None \<longrightarrow> e2 = initError c \<and> c2 = c \<and> tr2 = [])"
proof -
  have en: "ensureSitesCacheLoaded cfg fs c = (initError c, c, [])"
    using assms(1) by (rule ensure_loaded)
  have reads: "filter is_read tr2 = []"
  proof (rule filter_empty_by_events)
    fix x assume "x \<in> set tr2"
    from CommitSites_events[OF assms(2) this] assms(1) show "\<not> is_read x" by (cases x) auto
  qed
  have err: "initError c \<noteq> None \<longrightarrow> e2 = initError c \<and> c2 = c \<and> tr2 = []"
  proof
    assume "initError c \<noteq> None"
    then obtain x where x: "initError c = Some x" by auto
    with en have "CommitSites cfg fs git c opts = (Some x, c, [])"
      by (simp add: CommitSites_init_error)
    with assms(2) x show "e2 = initError c \<and> c2 = c \<and> tr2 = []" by simp
  qed
  from CommitSites_frame[OF assms(2) en] reads err show ?thesis by simp
qed

text \<open>
  Claim C5. A call of \<open>ensureSitesCacheLoaded\<close> leaves the \<open>sync.Once\<close> done and the
  result of the initialisation cached. When the \<open>Once\<close> was not done before, that result
  is the one \<open>initSitesCache\<close> computed in this call; when it was, nothing is read and
  nothing changes. Every later call, whatever the configuration and the file system
  have become, returns the cached error (or nil) and reads nothing: the next
  \<open>ensureSitesCacheLoaded\<close> returns what this one returned; \<open>GetSiteById\<close>,
  \<open>GetSiteByName\<close> and \<open>GetAllSites\<close> answer from the cached maps or with the cached
  error; \<open>CommitSites\<close> reads no file, keeps the maps and the cached result, and returns
  the cached error at once when there is one.
\<close>

theorem store_initialised_once:
  "ensureSitesCacheLoaded cfg fs c = (e, c1, tr) \<Longrightarrow>
     initOnce c1 \<and> initError c1 = e \<and>
     (\<not> initOnce c \<longrightarrow>
        (\<exists>c'. initSitesCache cfg fs c = (e, c', tr) \<and> c1 = c'\<lparr>initOnce := True, initError := e\<rparr>)) \<and>
     (initOnce c \<longrightarrow> c1 = c \<and> tr = []) \<and>
     ensureSitesCacheLoaded cfg' fs' c1 = (e, c1, []) \<and>
     GetSiteById cfg' fs' c1 i =
       ((case e of Some x \<Rightarrow> Inl x | None \<Rightarrow> Inr (map_of (byId c1) i)), c1, []) \<and>
     GetSiteByName cfg' fs' c1 n =
       ((case e of Some x \<Rightarrow> Inl x | None \<Rightarrow> Inr (map_of (byName c1) n)), c1, []) \<and>
     GetAllSites cfg' fs' c1 =
       ((case e of Some x \<Rightarrow> Inl x | None \<Rightarrow> Inr (slice c1)), c1, []) \<and>
     (\<forall>e2 c2 tr2. CommitSites cfg' fs' git c1 opts = (e2, c2, tr2) \<longrightarrow>
        filter is_read tr2 = [] \<and> initOnce c2 \<and> initError c2 = e \<and>
        byId c2 = byId c1 \<and> byName c2 = byName c1 \<and> slice c2 = slice c1 \<and>
        (e \<noteq> None \<longrightarrow> e2 = e \<and> c2 = c1 \<and> tr2 = []))"
proof -
  assume run: "ensureSitesCacheLoaded cfg fs c = (e, c1, tr)"
  from ensure_result[OF run] have once: "initOnce c1" and err: "initError c1 = e" by simp_all
  have first: "\<not> initOnce c \<longrightarrow>
        (\<exists>c'. initSitesCache cfg fs c = (e, c', tr) \<and> c1 = c'\<lparr>initOnce := True, initError := e\<rparr>)"
    using ensure_first[OF _ run] by blast
  have later: "initOnce c \<longrightarrow> c1 = c \<and> tr = []"
    using run by (auto simp: ensure_loaded)
  have again: "ensureSitesCacheLoaded cfg' fs' c1 = (e, c1, [])"
    using ensure_loaded[OF once] err by simp
  have commit: "\<forall>e2 c2 tr2. CommitSites cfg' fs' git c1 opts = (e2, c2, tr2) \<longrightarrow>
        filter is_read tr2 = [] \<and> initOnce c2 \<and> initError c2 = e \<and>
        byId c2 = byId c1 \<and> byName c2 = byName c1 \<and> slice c2 = slice c1 \<and>
        (e \<noteq> None \<longrightarrow> e2 = e \<and> c2 = c1 \<and> tr2 = [])"
  proof (intro allI impI)
    fix e2 c2 tr2 assume "CommitSites cfg' fs' git c1 opts = (e2, c2, tr2)"
    from CommitSites_loaded[OF once this] show
      "filter is_read tr2 = [] \<and> initOnce c2 \<and> initError c2 = e \<and>
        byId c2 = byId c1 \<and> byName c2 = byName c1 \<and> slice c2 = slice c1 \<and>
        (e \<noteq> None \<longrightarrow> e2 = e \<and> c2 = c1 \<and> tr2 = [])"
      unfolding err .
  qed
  have byid: "GetSiteById cfg' fs' c1 i =
       ((case e of Some x \<Rightarrow> Inl x | None \<Rightarrow> Inr (map_of (byId c1) i)), c1, [])"
    using accessors_loaded(1)[OF once, of cfg' fs' i] unfolding err .
  have byname: "GetSiteByName cfg' fs' c1 n =
       ((case e of Some x \<Rightarrow> Inl x | None \<Rightarrow> Inr (map_of (byName c1) n)), c1, [])"
    using accessors_loaded(2)[OF once, of cfg' fs' n] unfolding err .
  have all: "GetAllSites cfg' fs' c1 =
       ((case e of Some x \<Rightarrow> Inl x | None \<Rightarrow> Inr (slice c1)), c1, [])"
    using accessors_loaded(3)[OF once, of cfg' fs'] unfolding err .
  show ?thesis
    by (intro conjI) (rule once err first later again byid byname all commit)+
qed


theorem store_initialised_once_witness:
  "ensureSitesCacheLoaded cfg0 fs0 sitesCache_initial
     = (None,
        \<lparr>byId = [(42, 0)], byName = [(''chess'', 0)], initOnce = True, initError = None,
         slice = [0], sites = [site0]\<rparr>,
        [EvReadDir ''/srv/icu-cdb/sites'', EvReadFile ''/srv/icu-cdb/sites/chess.yaml'']) \<and>
   ensureSitesCacheLoaded cfg0 fs_broken
        \<lparr>byId = [(42, 0)], byName = [(''chess'', 0)], initOnce = True, initError = None,
         slice = [0], sites = [site0]\<rparr>
     = (None,
        \<lparr>byId = [(42, 0)], byName = [(''chess'', 0)], initOnce = True, initError = None,
         slice = [0], sites = [site0]\<rparr>, []) \<and>
   GetSiteById cfg0 fs_broken
        \<lparr>byId = [(42, 0)], byName = [(''chess'', 0)], initOnce = True, initError = None,
         slice = [0], sites = [site0]\<rparr> 42
     = (Inr (Some 0),
        \<lparr>byId = [(42, 0)], byName = [(''chess'', 0)], initOnce = True, initError = None,
         slice = [0], sites = [site0]\<rparr>, []) \<and>
   fst (ensureSitesCacheLoaded cfg0 fs_broken sitesCache_initial)
     = Some (ErrReadDir ''no such file or directory'') \<and>
   fst (GetSiteById cfg0 fs0 (fst (snd (ensureSitesCacheLoaded cfg0 fs_broken sitesCache_initial))) 42)
     = Inl (ErrReadDir ''no such file or directory'') \<and>
   snd (snd (GetSiteById cfg0 fs0 (fst (snd (ensureSitesCacheLoaded cfg0 fs_broken sitesCache_initial))) 42))
     = []"
proof -
  let ?c1 = "\<lparr>byId = [(42, 0)], byName = [(''chess'', 0)], initOnce = True, initError = None,
         slice = [0], sites = [site0]\<rparr>"
  have r1: "ensureSitesCacheLoaded cfg0 fs0 sitesCache_initial
     = (None, ?c1, [EvReadDir ''/srv/icu-cdb/sites'', EvReadFile ''/srv/icu-cdb/sites/chess.yaml''])"
    by code_simp
  obtain cb trb where r2: "ensureSitesCacheLoaded cfg0 fs_broken sitesCache_initial
     = (Some (ErrReadDir ''no such file or directory''), cb, trb)"
    by (simp add: ensureSitesCacheLoaded_def initSitesCache_def sitesCache_initial_def
        fs_broken_def fs0_def cfg0_def Let_def)
  note a = store_initialised_once[OF r1, of cfg0 fs_broken 42 "[]" git0 opts_sync]
  note b = store_initialised_once[OF r2, of cfg0 fs0 42 "[]" git0 opts_sync]
  from a have a1: "ensureSitesCacheLoaded cfg0 fs_broken ?c1 = (None, ?c1, [])"
    by (elim conjE)
  from a have "GetSiteById cfg0 fs_broken ?c1 42 =
       ((case None of Some x \<Rightarrow> Inl x | None \<Rightarrow> Inr (map_of (byId ?c1) 42)), ?c1, [])"
    by (elim conjE)
  then have a2: "GetSiteById cfg0 fs_broken ?c1 42 = (Inr (Some 0), ?c1, [])" by simp
  from b have "GetSiteById cfg0 fs0 cb 42 =
       ((case Some (ErrReadDir ''no such file or directory'') of Some x \<Rightarrow> Inl x
         | None \<Rightarrow> Inr (map_of (byId cb) 42)), cb, [])"
    by (elim conjE)
  then have b2: "GetSiteById cfg0 fs0 cb 42 = (Inl (ErrReadDir ''no such file or directory''), cb, [])"
    by simp
  from r1 r2 a1 a2 b2 show ?thesis by simp
qed

section \<open>The sync command\<close>

subsection \<open>Effects of the phases\<close>

lemma read_quiet: "is_read ev \<Longrightarrow> quiet ev"
  by (cases ev) (simp_all add: quiet_def)

lemma GetSiteById_events:
  "GetSiteById cfg fs c i = (r, c1, tr) \<Longrightarrow> ev \<in> set tr \<Longrightarrow> is_read ev"
  by (auto simp: GetSiteById_def split: prod.splits option.splits dest: ensure_events)

lemma GetSiteById_initOnce: "GetSiteById cfg fs c i = (r, c1, tr) \<Longrightarrow> initOnce c1"
  by (auto simp: GetSiteById_def split: prod.splits option.splits dest: ensure_result)

lemma apply_grants_initOnce:
  "apply_grants verb p c recs = (c', ids, out) \<Longrightarrow> initOnce c' = initOnce c"
proof (induction recs arbitrary: c c' ids out)
  case Nil
  then show ?case by simp
next
  case (Cons a recs)
  then show ?case by (auto simp: Let_def split: prod.splits)
qed

lemma process_grants_events:
  "process_grants cfg fs c jobs = (e, c', ids, recs, tr) \<Longrightarrow> ev \<in> set tr \<Longrightarrow> is_read ev"
proof (induction jobs arbitrary: c e c' ids recs tr)
  case Nil
  then show ?case by simp
next
  case (Cons j jobs)
  obtain verb i grantRecords where j: "j = (verb, i, grantRecords)" by (cases j)
  obtain r c1 tr0 where g: "GetSiteById cfg fs c i = (r, c1, tr0)"
    by (cases "GetSiteById cfg fs c i") auto
  show ?case
  proof (cases r)
    case (Inl x)
    with Cons.prems j g show ?thesis by (auto dest: GetSiteById_events)
  next
    case (Inr po)
    have "\<exists>cm e2 c2 ids2 recs2 tr2. process_grants cfg fs cm jobs = (e2, c2, ids2, recs2, tr2)
            \<and> tr = tr0 @ tr2"
      using Cons.prems(1) j g Inr
      by (auto simp: Let_def split: option.splits prod.splits) blast+
    then obtain cm e2 c2 ids2 recs2 tr2 where
      rest: "process_grants cfg fs cm jobs = (e2, c2, ids2, recs2, tr2)" and tr: "tr = tr0 @ tr2"
      by blast
    from Cons.prems(2) tr have "ev \<in> set tr0 \<or> ev \<in> set tr2" by simp
    then show ?thesis using GetSiteById_events[OF g] Cons.IH[OF rest] by blast
  qed
qed

lemma start_emails_events:
  "start_emails env so started = (se, started', tr) \<Longrightarrow> ev \<in> set tr \<Longrightarrow> ev = EvStartWorker"
  by (auto simp: start_emails_def StartWorker_def split: if_splits option.splits)

lemma start_emails_enabled:
  "start_emails env so started = (True, started', tr) \<Longrightarrow>
     \<not> dryRun so \<and> \<not> noEmail so \<and> (started \<or> Dial_err (env_em env) = None)"
  by (auto simp: start_emails_def StartWorker_def split: if_splits option.splits)

lemma CommitSites_quiet:
  "CommitSites cfg fs git c opts = (e, c', tr) \<Longrightarrow> ev \<in> set tr \<Longrightarrow> quiet ev"
  using CommitSites_events[of cfg fs git c opts e c' tr ev]
  by (cases ev) (auto simp: quiet_def)

lemma CommitSites_initOnce: "CommitSites cfg fs git c opts = (e, c', tr) \<Longrightarrow> initOnce c'"
  using CommitSites_frame[of cfg fs git c opts e c' tr]
  by (cases "ensureSitesCacheLoaded cfg fs c") auto

subsection \<open>The loop that finalizes and notifies\<close>

lemma SendEmail_trace:
  "SendEmail em opts = (e, tr) \<Longrightarrow> tr = [] \<or> tr = [EvEnqueue opts]"
  by (auto simp: SendEmail_def split: if_splits option.splits)

lemma notify_loaded:
  assumes "initOnce c" "notify env so a c = (c1, tr)"
  shows "c1 = c \<and> (tr = [] \<or> (\<exists>opts s. tr = [EvEnqueue opts] \<and> email_for so a s = Some opts))"
proof -
  have g: "GetSiteById (env_cfg env) (env_fs env) c (WebsiteId a) =
      ((case initError c of Some x \<Rightarrow> Inl x | None \<Rightarrow> Inr (map_of (byId c) (WebsiteId a))), c, [])"
    using assms(1) by (rule accessors_loaded(1))
  show ?thesis
    using assms(2) unfolding notify_def g
    by (auto split: option.splits prod.splits dest: SendEmail_trace)
qed

text \<open>
  An iteration of the loop contributes nothing (dry run), or the call of \<open>FinishGrant\<close>
  followed by at most one enqueued message, which is there only when the grant was
  updated and emails are being sent.
\<close>

lemma finish_grants_shape:
  assumes "initOnce (st_cache st)" "finish_grants env so se st recs = (r, st', tr)"
    and "tr = p @ ev # q"
  shows "\<not> dryRun so \<and>
         ((\<exists>a res. ev = EvFinishGrant a res) \<or>
          (\<exists>opts a s p0. ev = EvEnqueue opts \<and> se \<and> p = p0 @ [EvFinishGrant a (Inr True)]
                         \<and> email_for so a s = Some opts))"
  using assms
proof (induction recs arbitrary: st r st' tr p)
  case Nil
  then show ?case by simp
next
  case (Cons a rest)
  show ?case
  proof (cases "dryRun so")
    case True
    with Cons.prems have "finish_grants env so se st rest = (r, st', tr)" by simp
    from Cons.IH[OF Cons.prems(1) this Cons.prems(3)] show ?thesis .
  next
    case False
    obtain res db1 where fg: "FinishGrant (env_sql env) a (st_db st) = (res, db1)"
      by (cases "FinishGrant (env_sql env) a (st_db st)")
    show ?thesis
    proof (cases res)
      case (Inl e)
      with Cons.prems(2) False fg have "tr = [EvFinishGrant a (Inl e)]" by simp
      with Cons.prems(3) have "p = [] \<and> ev = EvFinishGrant a (Inl e)"
        by (auto simp: Cons_eq_append_conv)
      with False show ?thesis by simp
    next
      case (Inr updated)
      obtain c1 trn where nt:
        "(if updated \<and> se then notify env so a (st_cache st) else (st_cache st, [])) = (c1, trn)"
        by (cases "if updated \<and> se then notify env so a (st_cache st) else (st_cache st, [])")
      have c1: "c1 = st_cache st"
        and trn: "trn = [] \<or> (updated \<and> se \<and> (\<exists>opts s. trn = [EvEnqueue opts] \<and> email_for so a s = Some opts))"
        using nt notify_loaded[OF Cons.prems(1), of env so a] by (auto split: if_splits)
      let ?st1 = "st\<lparr>st_db := db1, st_cache := c1\<rparr>"
      obtain r2 st2 tr2 where rest: "finish_grants env so se ?st1 rest = (r2, st2, tr2)"
        by (cases "finish_grants env so se ?st1 rest") auto
      have tr: "tr = EvFinishGrant a (Inr updated) # trn @ tr2"
        using Cons.prems(2) False fg Inr nt rest by simp
      have once1: "initOnce (st_cache ?st1)" using c1 Cons.prems(1) by simp
      note IH = Cons.IH[OF once1 rest]
      show ?thesis
      proof (cases p)
        case Nil
        with tr Cons.prems(3) have "ev = EvFinishGrant a (Inr updated)" by simp
        with False show ?thesis by simp
      next
        case (Cons h p')
        with tr Cons.prems(3) have h: "h = EvFinishGrant a (Inr updated)"
          and eq: "trn @ tr2 = p' @ ev # q" by simp_all
        from trn show ?thesis
        proof
          assume "trn = []"
          with eq have "tr2 = p' @ ev # q" by simp
          from IH[OF this] Cons show ?thesis by auto
        next
          assume t: "updated \<and> se \<and> (\<exists>opts s. trn = [EvEnqueue opts] \<and> email_for so a s = Some opts)"
          then obtain opts s where o: "trn = [EvEnqueue opts]" "email_for so a s = Some opts" by blast
          show ?thesis
          proof (cases p')
            case Nil
            with eq o have "ev = EvEnqueue opts" by simp
            with Nil Cons h t o False show ?thesis by auto
          next
            case (Cons h' p'')
            with eq o have "tr2 = p'' @ ev # q" by simp
            from IH[OF this] show ?thesis
              using \<open>p = h # p'\<close> Cons by auto
          qed
        qed
      qed
    qed
  qed
qed


lemma finish_grants_events:
  assumes "initOnce (st_cache st)" "finish_grants env so se st recs = (r, st', tr)" "ev \<in> set tr"
  shows "\<not> dryRun so \<and> (is_finish ev \<or> (is_enqueue ev \<and> se))"
proof -
  from assms(3) obtain p q where "tr = p @ ev # q" by (auto simp: in_set_conv_decomp)
  from finish_grants_shape[OF assms(1,2) this] show ?thesis by auto
qed

subsection \<open>Cutting a trace at an event\<close>

lemma split_after_prefix:
  assumes "xs @ ys = p @ ev # q" "ev \<notin> set xs"
  shows "\<exists>p'. p = xs @ p' \<and> ys = p' @ ev # q"
proof -
  from assms(1) obtain us where
    "(xs = p @ us \<and> us @ ys = ev # q) \<or> (xs @ us = p \<and> ys = us @ ev # q)"
    by (auto simp: append_eq_append_conv2)
  then show ?thesis
  proof
    assume a: "xs = p @ us \<and> us @ ys = ev # q"
    show ?thesis
    proof (cases us)
      case Nil
      with a show ?thesis by simp
    next
      case (Cons u us')
      with a have "u = ev" by simp
      with a Cons assms(2) show ?thesis by simp
    qed
  next
    assume "xs @ us = p \<and> ys = us @ ev # q"
    then show ?thesis by auto
  qed
qed

lemma split_before_suffix:
  assumes "xs @ ys = p @ ev # q" "ev \<notin> set ys"
  shows "\<exists>q'. xs = p @ ev # q'"
proof -
  from assms(1) obtain us where
    "(xs = p @ us \<and> us @ ys = ev # q) \<or> (xs @ us = p \<and> ys = us @ ev # q)"
    by (auto simp: append_eq_append_conv2)
  then show ?thesis
  proof
    assume a: "xs = p @ us \<and> us @ ys = ev # q"
    show ?thesis
    proof (cases us)
      case Nil
      with a assms(2) show ?thesis by auto
    next
      case (Cons u us')
      with a show ?thesis by simp
    qed
  next
    assume "xs @ us = p \<and> ys = us @ ev # q"
    with assms(2) show ?thesis by auto
  qed
qed

subsection \<open>The shape of a run\<close>

lemma doSync_shape:
  assumes "doSync env so st = (r, st', tr)"
  shows "(r \<noteq> None \<and> (\<forall>ev\<in>set tr. quiet ev))
       \<or> (\<exists>pre e. tr = pre @ [EvCommitSitesReturned (Some e)] \<and> r = Some e \<and> (\<forall>ev\<in>set pre. quiet ev))
       \<or> (\<exists>pre tr3 tr4 post se st1 recs r4 st4.
             tr = (pre @ [EvCommitSitesReturned None] @ tr3) @ tr4 @ post \<and>
             (\<forall>ev\<in>set pre. quiet ev) \<and> (\<forall>ev\<in>set tr3. ev = EvStartWorker) \<and>
             (\<forall>ev\<in>set post. ev = EvShutdownWorker) \<and>
             initOnce (st_cache st1) \<and> finish_grants env so se st1 recs = (r4, st4, tr4) \<and>
             (se \<longrightarrow> \<not> dryRun so \<and> \<not> noEmail so \<and>
                     (worker_started st \<or> Dial_err (env_em env) = None)))"
proof (cases "Connect_err env")
  case (Some m)
  with assms show ?thesis by (auto simp: doSync_def)
next
  case None
  note conn = None
  show ?thesis
  proof (cases "GetGrantsToAdd env")
    case (Inl m)
    with assms conn show ?thesis by (auto simp: doSync_def)
  next
    case (Inr toAdd)
    note ga = Inr
    show ?thesis
    proof (cases "GetGrantsToRevoke env")
      case (Inl m)
      with assms conn ga show ?thesis by (auto simp: doSync_def)
    next
      case (Inr toRevoke)
      note gr = Inr
      obtain e1 c1 ids recs tr1 where pg:
        "process_grants (env_cfg env) (env_fs env) (st_cache st) (grant_jobs toAdd toRevoke)
           = (e1, c1, ids, recs, tr1)"
        by (cases "process_grants (env_cfg env) (env_fs env) (st_cache st) (grant_jobs toAdd toRevoke)") auto
      have q1: "\<forall>ev\<in>set tr1. quiet ev"
        using process_grants_events[OF pg] read_quiet by blast
      show ?thesis
      proof (cases e1)
        case (Some x)
        with assms conn ga gr pg q1 show ?thesis by (auto simp: doSync_def)
      next
        case None
        note ok1 = None
        let ?opts = "\<lparr>Ids = Some (siteIdsToCommit ids), Message = ''Update admins'',
                         Cmd = ''sync'', DryRun = dryRun so,
                         ForceUpdateTree = forceUpdateTree so, NoPush = noPush so\<rparr>"
        obtain e2 c2 tr2 where cs:
          "CommitSites (env_cfg env) (env_fs env) (env_git env) c1 ?opts = (e2, c2, tr2)"
          by (cases "CommitSites (env_cfg env) (env_fs env) (env_git env) c1 ?opts") auto
        have q2: "\<forall>ev\<in>set tr2. quiet ev" using CommitSites_quiet[OF cs] by blast
        have once: "initOnce c2" using CommitSites_initOnce[OF cs] .
        show ?thesis
        proof (cases e2)
          case (Some x)
          with assms conn ga gr pg ok1 cs have
            "tr = (tr1 @ tr2) @ [EvCommitSitesReturned (Some x)]" "r = Some x"
            by (auto simp: doSync_def Let_def)
          moreover have "\<forall>ev\<in>set (tr1 @ tr2). quiet ev" using q1 q2 by auto
          ultimately show ?thesis by blast
        next
          case None
          note ok2 = None
          obtain se started tr3 where se: "start_emails env so (worker_started st) = (se, started, tr3)"
            by (cases "start_emails env so (worker_started st)") auto
          let ?st1 = "st\<lparr>st_cache := c2, worker_started := started\<rparr>"
          obtain r4 st4 tr4 where fg: "finish_grants env so se ?st1 recs = (r4, st4, tr4)"
            by (cases "finish_grants env so se ?st1 recs") auto
          have "\<exists>post. tr = ((tr1 @ tr2) @ [EvCommitSitesReturned None] @ tr3) @ tr4 @ post
                  \<and> (\<forall>ev\<in>set post. ev = EvShutdownWorker)"
            using assms conn ga gr pg ok1 cs ok2 se fg
            by (auto simp: doSync_def Let_def split: option.splits)
          then obtain post where
            tr: "tr = ((tr1 @ tr2) @ [EvCommitSitesReturned None] @ tr3) @ tr4 @ post"
            and post: "\<forall>ev\<in>set post. ev = EvShutdownWorker" by blast
          have pre: "\<forall>ev\<in>set (tr1 @ tr2). quiet ev" using q1 q2 by auto
          have t3: "\<forall>ev\<in>set tr3. ev = EvStartWorker" using start_emails_events[OF se] by blast
          have en: "se \<longrightarrow> \<not> dryRun so \<and> \<not> noEmail so \<and>
                     (worker_started st \<or> Dial_err (env_em env) = None)"
          proof
            assume "se"
            with se have "start_emails env so (worker_started st) = (True, started, tr3)" by simp
            then show "\<not> dryRun so \<and> \<not> noEmail so \<and>
                     (worker_started st \<or> Dial_err (env_em env) = None)"
              by (rule start_emails_enabled)
          qed
          have o1: "initOnce (st_cache ?st1)" using once by simp
          from tr pre t3 post o1 fg en show ?thesis by blast
        qed
      qed
    qed
  qed
qed


lemma quiet_filters:
  assumes "\<forall>ev\<in>set xs. quiet ev"
  shows "filter is_finish xs = []" "filter is_enqueue xs = []" "filter is_return xs = []"
  using assms by (auto simp: filter_empty_conv quiet_def)

lemma commit_failure_stops:
  assumes "doSync env so st = (r, st', tr)" "EvCommitSitesReturned (Some e) \<in> set tr"
  shows "r = Some e \<and> filter is_finish tr = [] \<and> filter is_enqueue tr = []"
  using doSync_shape[OF assms(1)]
proof (elim disjE exE conjE)
  assume "\<forall>ev\<in>set tr. quiet ev"
  with assms(2) have "quiet (EvCommitSitesReturned (Some e))" by blast
  then show ?thesis by (simp add: quiet_def)
next
  fix pre e'
  assume tr: "tr = pre @ [EvCommitSitesReturned (Some e')]" and r: "r = Some e'"
    and q: "\<forall>ev\<in>set pre. quiet ev"
  have "EvCommitSitesReturned (Some e) \<notin> set pre" using q by (auto simp: quiet_def)
  with assms(2) tr have "e = e'" by simp
  with r tr quiet_filters[OF q] show ?thesis by simp
next
  fix pre tr3 tr4 post se st1 recs r4 st4
  assume tr: "tr = (pre @ [EvCommitSitesReturned None] @ tr3) @ tr4 @ post"
    and q: "\<forall>ev\<in>set pre. quiet ev" and t3: "\<forall>ev\<in>set tr3. ev = EvStartWorker"
    and po: "\<forall>ev\<in>set post. ev = EvShutdownWorker"
    and once: "initOnce (st_cache st1)" and fg: "finish_grants env so se st1 recs = (r4, st4, tr4)"
  have "EvCommitSitesReturned (Some e) \<notin> set pre" using q by (auto simp: quiet_def)
  moreover have "EvCommitSitesReturned (Some e) \<notin> set tr3" using t3 by auto
  moreover have "EvCommitSitesReturned (Some e) \<notin> set post" using po by auto
  moreover have "EvCommitSitesReturned (Some e) \<notin> set tr4"
    using finish_grants_events[OF once fg, of "EvCommitSitesReturned (Some e)"] by auto
  ultimately have False using assms(2) tr by simp
  then show ?thesis ..
qed

lemma commit_step_single:
  assumes "doSync env so st = (r, st', tr)"
  shows "length (filter is_return tr) \<le> 1"
  using doSync_shape[OF assms]
proof (elim disjE exE conjE)
  assume "\<forall>ev\<in>set tr. quiet ev"
  from quiet_filters(3)[OF this] show ?thesis by simp
next
  fix pre e'
  assume tr: "tr = pre @ [EvCommitSitesReturned (Some e')]" and q: "\<forall>ev\<in>set pre. quiet ev"
  with quiet_filters(3)[OF q] show ?thesis by simp
next
  fix pre tr3 tr4 post se st1 recs r4 st4
  assume tr: "tr = (pre @ [EvCommitSitesReturned None] @ tr3) @ tr4 @ post"
    and q: "\<forall>ev\<in>set pre. quiet ev" and t3: "\<forall>ev\<in>set tr3. ev = EvStartWorker"
    and po: "\<forall>ev\<in>set post. ev = EvShutdownWorker"
    and once: "initOnce (st_cache st1)" and fg: "finish_grants env so se st1 recs = (r4, st4, tr4)"
  have f3: "filter is_return tr3 = []" using t3 by (auto simp: filter_empty_conv)
  have f5: "filter is_return post = []" using po by (auto simp: filter_empty_conv)
  have f4: "filter is_return tr4 = []"
  proof (rule filter_empty_by_events)
    fix ev assume "ev \<in> set tr4"
    from finish_grants_events[OF once fg this] show "\<not> is_return ev" by (cases ev) auto
  qed
  from tr quiet_filters(3)[OF q] f3 f4 f5 show ?thesis by simp
qed

lemma finalize_after_commit:
  assumes "doSync env so st = (r, st', tr)" "tr = p @ EvFinishGrant a res # q"
  shows "EvCommitSitesReturned None \<in> set p \<and> \<not> dryRun so"
  using doSync_shape[OF assms(1)]
proof (elim disjE exE conjE)
  assume "\<forall>ev\<in>set tr. quiet ev"
  with assms(2) have "quiet (EvFinishGrant a res)" by simp
  then show ?thesis by (simp add: quiet_def)
next
  fix pre e'
  assume tr: "tr = pre @ [EvCommitSitesReturned (Some e')]" and q: "\<forall>ev\<in>set pre. quiet ev"
  have "EvFinishGrant a res \<in> set tr" using assms(2) by simp
  with tr have "EvFinishGrant a res \<in> set pre" by simp
  with q have "quiet (EvFinishGrant a res)" by blast
  then show ?thesis by (simp add: quiet_def)
next
  fix pre tr3 tr4 post se st1 recs r4 st4
  assume tr: "tr = (pre @ [EvCommitSitesReturned None] @ tr3) @ tr4 @ post"
    and q: "\<forall>ev\<in>set pre. quiet ev" and t3: "\<forall>ev\<in>set tr3. ev = EvStartWorker"
    and po: "\<forall>ev\<in>set post. ev = EvShutdownWorker"
    and once: "initOnce (st_cache st1)" and fg: "finish_grants env so se st1 recs = (r4, st4, tr4)"
  let ?xs = "pre @ [EvCommitSitesReturned None] @ tr3"
  have "EvFinishGrant a res \<notin> set pre" using q by (auto simp: quiet_def)
  moreover have "EvFinishGrant a res \<notin> set tr3" using t3 by auto
  ultimately have nx: "EvFinishGrant a res \<notin> set ?xs" by simp
  from tr assms(2) have "?xs @ (tr4 @ post) = p @ EvFinishGrant a res # q" by simp
  from split_after_prefix[OF this nx] obtain p' where
    p: "p = ?xs @ p'" and rest: "tr4 @ post = p' @ EvFinishGrant a res # q" by blast
  have "EvFinishGrant a res \<notin> set post" using po by auto
  from split_before_suffix[OF rest this] obtain q' where "tr4 = p' @ EvFinishGrant a res # q'" ..
  from finish_grants_shape[OF once fg this] have "\<not> dryRun so" by simp
  with p show ?thesis by simp
qed

lemma notify_after_finalize:
  assumes "doSync env so st = (r, st', tr)" "tr = p @ EvEnqueue opts # q"
  shows "\<not> dryRun so \<and> \<not> noEmail so \<and> (worker_started st \<or> Dial_err (env_em env) = None) \<and>
         (\<exists>p0 a s. p = p0 @ [EvFinishGrant a (Inr True)] \<and> email_for so a s = Some opts)"
  using doSync_shape[OF assms(1)]
proof (elim disjE exE conjE)
  assume "\<forall>ev\<in>set tr. quiet ev"
  with assms(2) have "quiet (EvEnqueue opts)" by simp
  then show ?thesis by (simp add: quiet_def)
next
  fix pre e'
  assume tr: "tr = pre @ [EvCommitSitesReturned (Some e')]" and q: "\<forall>ev\<in>set pre. quiet ev"
  have "EvEnqueue opts \<in> set tr" using assms(2) by simp
  with tr have "EvEnqueue opts \<in> set pre" by simp
  with q have "quiet (EvEnqueue opts)" by blast
  then show ?thesis by (simp add: quiet_def)
next
  fix pre tr3 tr4 post se st1 recs r4 st4
  assume tr: "tr = (pre @ [EvCommitSitesReturned None] @ tr3) @ tr4 @ post"
    and q: "\<forall>ev\<in>set pre. quiet ev" and t3: "\<forall>ev\<in>set tr3. ev = EvStartWorker"
    and po: "\<forall>ev\<in>set post. ev = EvShutdownWorker"
    and once: "initOnce (st_cache st1)" and fg: "finish_grants env so se st1 recs = (r4, st4, tr4)"
    and en: "se \<longrightarrow> \<not> dryRun so \<and> \<not> noEmail so \<and> (worker_started st \<or> Dial_err (env_em env) = None)"
  let ?xs = "pre @ [EvCommitSitesReturned None] @ tr3"
  have "EvEnqueue opts \<notin> set pre" using q by (auto simp: quiet_def)
  moreover have "EvEnqueue opts \<notin> set tr3" using t3 by auto
  ultimately have nx: "EvEnqueue opts \<notin> set ?xs" by simp
  from tr assms(2) have "?xs @ (tr4 @ post) = p @ EvEnqueue opts # q" by simp
  from split_after_prefix[OF this nx] obtain p' where
    p: "p = ?xs @ p'" and rest: "tr4 @ post = p' @ EvEnqueue opts # q" by blast
  have "EvEnqueue opts \<notin> set post" using po by auto
  from split_before_suffix[OF rest this] obtain q' where "tr4 = p' @ EvEnqueue opts # q'" ..
  from finish_grants_shape[OF once fg this] obtain a s p0 where
    sh: "se" "p' = p0 @ [EvFinishGrant a (Inr True)]" "email_for so a s = Some opts" by auto
  from p sh(2) have e1: "p = (?xs @ p0) @ [EvFinishGrant a (Inr True)]" by simp
  have "\<exists>p0 a s. p = p0 @ [EvFinishGrant a (Inr True)] \<and> email_for so a s = Some opts"
    by (intro exI conjI) (rule e1, rule sh(3))
  with sh(1) en show ?thesis by simp
qed

text \<open>
  Claim C3. In a run of \<open>doSync\<close>: when the commit step returns an error, the run ends
  with that error and its trace holds no call of \<open>FinishGrant\<close> and no enqueued
  notification; the commit step returns at most once; every call of \<open>FinishGrant\<close> comes
  after the commit step has returned nil (and never in a dry run); every enqueued
  notification comes directly after the call of \<open>FinishGrant\<close> that returned true for
  the grant the message was built from, in a run that is not a dry run, has emails
  switched on and has a mail worker.
\<close>

theorem sync_causal_order:
  "doSync env so st = (r, st', tr) \<Longrightarrow>
     (\<forall>e. EvCommitSitesReturned (Some e) \<in> set tr \<longrightarrow>
          r = Some e \<and> filter is_finish tr = [] \<and> filter is_enqueue tr = []) \<and>
     length (filter is_return tr) \<le> 1 \<and>
     (\<forall>p a res q. tr = p @ EvFinishGrant a res # q \<longrightarrow>
          EvCommitSitesReturned None \<in> set p \<and> \<not> dryRun so) \<and>
     (\<forall>p opts q. tr = p @ EvEnqueue opts # q \<longrightarrow>
          \<not> dryRun so \<and> \<not> noEmail so \<and> (worker_started st \<or> Dial_err (env_em env) = None) \<and>
          (\<exists>p0 a s. p = p0 @ [EvFinishGrant a (Inr True)] \<and> email_for so a s = Some opts))"
proof -
  assume run: "doSync env so st = (r, st', tr)"
  have a: "\<forall>e. EvCommitSitesReturned (Some e) \<in> set tr \<longrightarrow>
          r = Some e \<and> filter is_finish tr = [] \<and> filter is_enqueue tr = []"
    using commit_failure_stops[OF run] by blast
  have b: "length (filter is_return tr) \<le> 1" by (rule commit_step_single[OF run])
  have c: "\<forall>p a res q. tr = p @ EvFinishGrant a res # q \<longrightarrow>
          EvCommitSitesReturned None \<in> set p \<and> \<not> dryRun so"
    using finalize_after_commit[OF run] by blast
  have d: "\<forall>p opts q. tr = p @ EvEnqueue opts # q \<longrightarrow>
          \<not> dryRun so \<and> \<not> noEmail so \<and> (worker_started st \<or> Dial_err (env_em env) = None) \<and>
          (\<exists>p0 a s. p = p0 @ [EvFinishGrant a (Inr True)] \<and> email_for so a s = Some opts)"
    using notify_after_finalize[OF run] by blast
  show ?thesis by (intro conjI) (rule a b c d)+
qed


theorem sync_causal_order_witness:
  "snd (snd (doSync env_dirty so0 st0))
     = [EvReadDir ''/srv/icu-cdb/sites'', EvReadFile ''/srv/icu-cdb/sites/chess.yaml'',
        EvCommitSitesReturned (Some ErrWorktreeNotClean)] \<and>
   fst (doSync env_dirty so0 st0) = Some ErrWorktreeNotClean \<and>
   filter is_finish (snd (snd (doSync env_dirty so0 st0))) = [] \<and>
   filter is_enqueue (snd (snd (doSync env_dirty so0 st0))) = [] \<and>
   snd (snd (doSync env0 so0 st0))
     = [EvReadDir ''/srv/icu-cdb/sites'', EvReadFile ''/srv/icu-cdb/sites/chess.yaml'',
        EvPull ''master'', EvSave ''chess'', EvWriteFile ''/srv/icu-cdb/sites/chess.yaml'',
        EvStage ''sites/chess.yaml'',
        EvCommit ''sites: Update admins. Sites changed: 1 (cmd=pugo sync, src=newerpol)'',
        EvPush, EvCommitSitesReturned None, EvStartWorker,
        EvFinishGrant grant_abc (Inr True),
        EvEnqueue \<lparr>CSP = ''Chess'', Email = ''abc@example.com'', EmailName = ''Ann Bell Clark'',
                    FirstName = ''Ann'', Folder = ''chess'', Subject = ''Website Access Granted'',
                    Type = ''granted''\<rparr>,
        EvFinishGrant grant_xyz (Inr True),
        EvEnqueue \<lparr>CSP = ''Chess'', Email = ''xyz@example.com'', EmailName = ''Xav Young Zed'',
                    FirstName = ''Xav'', Folder = ''chess'', Subject = ''Website Access Removed'',
                    Type = ''revoked''\<rparr>,
        EvShutdownWorker] \<and>
   \<not> dryRun so0 \<and> \<not> noEmail so0 \<and>
   Admins (sites (st_cache (fst (snd (doSync env0 so0 st0)))) ! 0) = [''abc'', ''al'']"
proof -
  let ?d = "doSync env_dirty so0 st0"
  let ?r = "doSync env0 so0 st0"
  let ?o = "\<lparr>CSP = ''Chess'', Email = ''abc@example.com'', EmailName = ''Ann Bell Clark'',
             FirstName = ''Ann'', Folder = ''chess'', Subject = ''Website Access Granted'',
             Type = ''granted''\<rparr>"
  have td: "snd (snd ?d)
     = [EvReadDir ''/srv/icu-cdb/sites'', EvReadFile ''/srv/icu-cdb/sites/chess.yaml'',
        EvCommitSitesReturned (Some ErrWorktreeNotClean)]"
    by code_simp
  have tr: "snd (snd ?r)
     = [EvReadDir ''/srv/icu-cdb/sites'', EvReadFile ''/srv/icu-cdb/sites/chess.yaml'',
        EvPull ''master'', EvSave ''chess'', EvWriteFile ''/srv/icu-cdb/sites/chess.yaml'',
        EvStage ''sites/chess.yaml'',
        EvCommit ''sites: Update admins. Sites changed: 1 (cmd=pugo sync, src=newerpol)'',
        EvPush, EvCommitSitesReturned None, EvStartWorker,
        EvFinishGrant grant_abc (Inr True), EvEnqueue ?o,
        EvFinishGrant grant_xyz (Inr True),
        EvEnqueue \<lparr>CSP = ''Chess'', Email = ''xyz@example.com'', EmailName = ''Xav Young Zed'',
                    FirstName = ''Xav'', Folder = ''chess'', Subject = ''Website Access Removed'',
                    Type = ''revoked''\<rparr>,
        EvShutdownWorker]"
    by code_simp
  have ad: "Admins (sites (st_cache (fst (snd ?r))) ! 0) = [''abc'', ''al'']"
    by code_simp
  have rd: "doSync env_dirty so0 st0 = (fst ?d, fst (snd ?d), snd (snd ?d))" by simp
  have rr: "doSync env0 so0 st0 = (fst ?r, fst (snd ?r), snd (snd ?r))" by simp
  have m: "EvCommitSitesReturned (Some ErrWorktreeNotClean) \<in> set (snd (snd ?d))"
    unfolding td by simp
  have d1: "fst ?d = Some ErrWorktreeNotClean \<and> filter is_finish (snd (snd ?d)) = []
             \<and> filter is_enqueue (snd (snd ?d)) = []"
    using sync_causal_order[OF rd] m by blast
  have split: "snd (snd ?r) =
      [EvReadDir ''/srv/icu-cdb/sites'', EvReadFile ''/srv/icu-cdb/sites/chess.yaml'',
        EvPull ''master'', EvSave ''chess'', EvWriteFile ''/srv/icu-cdb/sites/chess.yaml'',
        EvStage ''sites/chess.yaml'',
        EvCommit ''sites: Update admins. Sites changed: 1 (cmd=pugo sync, src=newerpol)'',
        EvPush, EvCommitSitesReturned None, EvStartWorker,
        EvFinishGrant grant_abc (Inr True)]
      @ EvEnqueue ?o
      # [EvFinishGrant grant_xyz (Inr True),
         EvEnqueue \<lparr>CSP = ''Chess'', Email = ''xyz@example.com'', EmailName = ''Xav Young Zed'',
                    FirstName = ''Xav'', Folder = ''chess'', Subject = ''Website Access Removed'',
                    Type = ''revoked''\<rparr>,
         EvShutdownWorker]"
    unfolding tr by simp
  have r1: "\<not> dryRun so0 \<and> \<not> noEmail so0"
    using sync_causal_order[OF rr] split by blast
  from td tr ad d1 r1 show ?thesis by simp
qed

end
